theory Spec2Isabelle
  imports Complex_Main "HOL-Library.Extended_Nat" "HOL-Library.Log_Nat"
begin

section \<open>The AODV protocol simulator (aodv\_simulator.py)\<close>

text \<open>
  This theory embeds the protocol engine of \<^verbatim>\<open>src/aodv_simulator.py\<close>: the in-flight
  packet (\<^verbatim>\<open>AnimatedPacket\<close>), the node record (\<^verbatim>\<open>Node\<close>) and the engine
  (\<^verbatim>\<open>AODVSimulator\<close>) with its flooding, reply, data and route-error handling and its
  tick driver.

  Conventions of the embedding.
  \<^item> Node ids are natural numbers. \<^verbatim>\<open>setup_nodes\<close> creates node \<open>k\<close> with id \<open>k\<close> at
    position \<open>k\<close> of \<^verbatim>\<open>self.nodes\<close>, and every neighbour list holds objects of that same
    list, so a neighbour object is represented by its id and \<^verbatim>\<open>neighbor.rreq_seen\<close> is
    the record of \<open>nodes ! id\<close>.
  \<^item> Python floats (\<^verbatim>\<open>progress\<close>, \<^verbatim>\<open>base_speed\<close>, \<^verbatim>\<open>delta_time\<close>, \<^verbatim>\<open>animation_speed\<close>)
    are IEEE 754 double-precision numbers, with the rounded addition and multiplication
    and the comparison of that format (next subsection).
  \<^item> \<^verbatim>\<open>float('inf')\<close> for the best hop count is \<open>\<infinity>\<close> of the extended naturals.
  \<^item> An uncaught Python exception is a value \<open>Inl e\<close> of the result type.
  \<^item> The event log and the PCAP recorder only collect text for display and export and are
    never read back by the engine; they are left out of the state. The engine is modelled
    in the configuration \<^verbatim>\<open>main()\<close> sets up, where \<^verbatim>\<open>event_log\<close> is an \<^verbatim>\<open>EventLog\<close>
    object (hence truthy), and the index expressions evaluated for the log and the recorder
    are kept as explicit range checks.
  \<^item> Positions, velocities and the Euclidean range test are abstracted: where the engine
    recomputes neighbourhoods under mobility, the outcome of the range test is a parameter.
\<close>

subsection \<open>Python floats\<close>

text \<open>A Python \<^verbatim>\<open>float\<close> is an IEEE 754 binary64 number. \<open>Finite m e\<close> stands for the
  number \<open>m * 2 ^ e\<close>; the results of the operations below are in the normal form of the
  format (a significand of at most 53 bits, of exactly 53 bits unless the exponent is the
  smallest one, \<open>-1074\<close>; zero is \<open>Finite 0 0\<close>). The sign of a zero is not represented:
  addition, multiplication and comparison, the only float operations of the engine, give
  the same result up to that sign for \<^verbatim>\<open>-0.0\<close> as for \<^verbatim>\<open>0.0\<close>.\<close>

datatype double = Finite int int | PosInf | NegInf | NaN

text \<open>The integer nearest to \<open>a / 2 ^ s\<close>, the even one of the two when \<open>a / 2 ^ s\<close> lies
  halfway.\<close>

definition nearest_even :: "int \<Rightarrow> nat \<Rightarrow> int" where
  "nearest_even a s =
     (let d = 2 ^ s; f = a div d; r = a mod d
      in if 2 * r < d then f else if d < 2 * r then f + 1 else if even f then f else f + 1)"

text \<open>Rounding of the exact number \<open>m * 2 ^ e\<close> to the nearest double, ties to even (the
  rounding of every arithmetic operation). \<open>k\<close> is the position of the leading bit, \<open>t\<close>
  the exponent of the last significand bit the format keeps for a number of that size.
  A result of magnitude \<open>2 ^ 1024\<close> or more is an infinity.\<close>

definition round_double :: "int \<Rightarrow> int \<Rightarrow> double" where
  "round_double m e =
     (if m = 0 then Finite 0 0
      else
        let a = \<bar>m\<bar>;
            k = e + bitlen a - 1;
            t = max (k - 52) (- 1074);
            n = (if t \<le> e then a * 2 ^ nat (e - t) else nearest_even a (nat (t - e)))
        in if 1023 < k \<or> (k = 1023 \<and> n = 2 ^ 53) then (if 0 < m then PosInf else NegInf)
           else if n = 0 then Finite 0 0
           else if n = 2 ^ 53 then Finite (sgn m * 2 ^ 52) (t + 1)
           else Finite (sgn m * n) t)"

text \<open>\<^verbatim>\<open>x + y\<close> on floats: the exact sum, rounded.\<close>

fun double_add :: "double \<Rightarrow> double \<Rightarrow> double" where
  "double_add (Finite m1 e1) (Finite m2 e2) =
     (let t = min e1 e2 in round_double (m1 * 2 ^ nat (e1 - t) + m2 * 2 ^ nat (e2 - t)) t)"
| "double_add NaN y = NaN"
| "double_add x NaN = NaN"
| "double_add PosInf NegInf = NaN"
| "double_add NegInf PosInf = NaN"
| "double_add PosInf y = PosInf"
| "double_add NegInf y = NegInf"
| "double_add x PosInf = PosInf"
| "double_add x NegInf = NegInf"

text \<open>\<^verbatim>\<open>x * y\<close> on floats: the exact product, rounded; zero times an infinity is not a
  number.\<close>

fun double_mul :: "double \<Rightarrow> double \<Rightarrow> double" where
  "double_mul (Finite m1 e1) (Finite m2 e2) = round_double (m1 * m2) (e1 + e2)"
| "double_mul NaN y = NaN"
| "double_mul x NaN = NaN"
| "double_mul (Finite m e) PosInf = (if m = 0 then NaN else if 0 < m then PosInf else NegInf)"
| "double_mul (Finite m e) NegInf = (if m = 0 then NaN else if 0 < m then NegInf else PosInf)"
| "double_mul PosInf (Finite m e) = (if m = 0 then NaN else if 0 < m then PosInf else NegInf)"
| "double_mul NegInf (Finite m e) = (if m = 0 then NaN else if 0 < m then NegInf else PosInf)"
| "double_mul PosInf PosInf = PosInf"
| "double_mul NegInf NegInf = PosInf"
| "double_mul PosInf NegInf = NegInf"
| "double_mul NegInf PosInf = NegInf"

text \<open>\<^verbatim>\<open>x >= y\<close> on floats: false whenever one side is not a number.\<close>

fun double_ge :: "double \<Rightarrow> double \<Rightarrow> bool" where
  "double_ge (Finite m1 e1) (Finite m2 e2) =
     (let t = min e1 e2 in m2 * 2 ^ nat (e2 - t) \<le> m1 * 2 ^ nat (e1 - t))"
| "double_ge NaN y = False"
| "double_ge x NaN = False"
| "double_ge PosInf y = True"
| "double_ge x NegInf = True"
| "double_ge x y = False"

text \<open>The float of a natural number, as for the literals \<^verbatim>\<open>0.0\<close>, \<^verbatim>\<open>1.0\<close> and \<^verbatim>\<open>2.0\<close>.\<close>

definition double_of_nat :: "nat \<Rightarrow> double" where
  "double_of_nat n = round_double (int n) 0"

text \<open>The literal \<^verbatim>\<open>0.8\<close>, the \<^verbatim>\<open>base_speed\<close> of every packet the engine creates: the
  double nearest to \<open>4/5\<close>, \<^verbatim>\<open>0x1.999999999999ap-1\<close>.\<close>

definition default_base_speed :: double where
  "default_base_speed = Finite 7205759403792794 (- 53)"

text \<open>The rational number a finite double stands for.\<close>

fun double_value :: "double \<Rightarrow> rat option" where
  "double_value (Finite m e) =
     Some (if 0 \<le> e then of_int m * 2 ^ nat e else of_int m / 2 ^ nat (- e))"
| "double_value x = None"

subsection \<open>Packets\<close>

datatype PacketType = RREQ | RREP | DATA | RERR

record AnimatedPacket =
  packet_id :: nat
  packet_type :: PacketType
  path :: "nat list"
  current_node_index :: nat
  progress :: double
  base_speed :: double
  completed :: bool
  from_node :: "nat option"
  to_node :: "nat option"
  hop_count :: nat

text \<open>The constructor \<^verbatim>\<open>AnimatedPacket.__init__\<close>; \<^verbatim>\<open>len(path) - 1 if path else 0\<close> is
  the truncating subtraction on naturals.\<close>

definition new_packet ::
  "nat \<Rightarrow> PacketType \<Rightarrow> nat list \<Rightarrow> double \<Rightarrow> nat option \<Rightarrow> nat option \<Rightarrow> AnimatedPacket" where
  "new_packet i t p v f g =
     \<lparr>packet_id = i, packet_type = t, path = p, current_node_index = 0,
      progress = double_of_nat 0,
      base_speed = v, completed = False, from_node = f, to_node = g,
      hop_count = length p - 1\<rparr>"

text \<open>\<^verbatim>\<open>AnimatedPacket.update\<close>: the updated packet and the returned boolean. The test
  \<^verbatim>\<open>current_node_index >= len(path) - 1\<close> is on Python integers, where the right-hand side
  is \<open>-1\<close> for an empty path; it is written on integers here as well.\<close>

definition AnimatedPacket_update :: "AnimatedPacket \<Rightarrow> double \<Rightarrow> double \<Rightarrow> AnimatedPacket \<times> bool" where
  "AnimatedPacket_update p delta_time speed_multiplier =
     (if completed p then (p, False)
      else
        let actual_speed = double_mul (base_speed p) speed_multiplier;
            p1 = p\<lparr>progress := double_add (progress p) (double_mul actual_speed delta_time)\<rparr>
        in if double_ge (progress p1) (double_of_nat 1) then
             let p2 = p1\<lparr>current_node_index := current_node_index p1 + 1,
                       progress := double_of_nat 0\<rparr>
             in if int (current_node_index p2) \<ge> int (length (path p2)) - 1
                then (p2\<lparr>completed := True, progress := double_of_nat 1\<rparr>, True)
                else (p2, False)
           else (p1, False))"

text \<open>A sequence of \<^verbatim>\<open>update\<close> calls on one packet, each with its own
  \<open>(delta_time, speed_multiplier)\<close>: the packet after the last call and the list of
  returned booleans.\<close>

fun update_calls :: "AnimatedPacket \<Rightarrow> (double \<times> double) list \<Rightarrow> AnimatedPacket \<times> bool list" where
  "update_calls p [] = (p, [])"
| "update_calls p (c # cs) =
     (let (p', r) = AnimatedPacket_update p (fst c) (snd c);
          (p'', rs) = update_calls p' cs
      in (p'', r # rs))"

subsection \<open>Nodes and the engine state\<close>

text \<open>\<^verbatim>\<open>Node\<close>: the neighbour list (ids, in list order), the record of floods already
  directed at this node, a set of pairs \<open>(source, broadcast id)\<close>, and the mobility flag.
  The source component of a pair is \<^verbatim>\<open>self.source\<close>, which may be \<^verbatim>\<open>None\<close>.\<close>

record Node =
  neighbors :: "nat list"
  rreq_seen :: "(nat option \<times> nat) set"
  is_moving :: bool

datatype error = IndexError | TypeError

record AODVSimulator =
  nodes :: "Node list"
  active_packets :: "AnimatedPacket list"
  packet_queue :: "AnimatedPacket list"
  source :: "nat option"
  destination :: "nat option"
  simulation_running :: bool
  simulation_complete :: bool
  packet_counter :: nat
  final_path :: "nat list"
  discovered_paths :: "nat list list"
  all_discovered_paths_to_dest :: "nat list list"
  animation_speed :: double
  rreq_broadcast_id :: nat
  best_path_hop_count :: enat
  route_established :: bool
  mobility_enabled :: bool

text \<open>\<^verbatim>\<open>setup_nodes\<close> places the nodes at random positions and derives the neighbour
  lists from distances and coin flips. Its outcome is a parameter here: the list of
  neighbour lists, one per node id (the linking loops themselves are modelled further
  down, as \<open>build_adjacency\<close>). Every new node starts with an empty record and at rest.\<close>

definition setup_nodes :: "nat list list \<Rightarrow> Node list" where
  "setup_nodes adj = map (\<lambda>nb. \<lparr>neighbors = nb, rreq_seen = {}, is_moving = False\<rparr>) adj"

text \<open>\<^verbatim>\<open>AODVSimulator.__init__\<close>.\<close>

definition init_simulator :: "nat list list \<Rightarrow> AODVSimulator" where
  "init_simulator adj =
     \<lparr>nodes = setup_nodes adj, active_packets = [], packet_queue = [], source = None,
      destination = None, simulation_running = False, simulation_complete = False,
      packet_counter = 0, final_path = [], discovered_paths = [],
      all_discovered_paths_to_dest = [], animation_speed = double_of_nat 1,
      rreq_broadcast_id = 0,
      best_path_hop_count = \<infinity>, route_established = False, mobility_enabled = False\<rparr>"

text \<open>\<^verbatim>\<open>neighbor.rreq_seen.add(key)\<close> on the node object with id \<open>i\<close>.\<close>

definition mark_seen :: "Node list \<Rightarrow> nat \<Rightarrow> nat option \<times> nat \<Rightarrow> Node list" where
  "mark_seen ns i key = ns[i := (ns ! i)\<lparr>rreq_seen := insert key (rreq_seen (ns ! i))\<rparr>]"

subsection \<open>Session reset and seeding\<close>

definition reset_simulation :: "AODVSimulator \<Rightarrow> AODVSimulator" where
  "reset_simulation s =
     s\<lparr>active_packets := [], packet_queue := [], simulation_running := False,
       simulation_complete := False, final_path := [], discovered_paths := [],
       all_discovered_paths_to_dest := [], best_path_hop_count := \<infinity>,
       route_established := False, packet_counter := 0,
       nodes := map (\<lambda>n. n\<lparr>rreq_seen := {}\<rparr>) (nodes s)\<rparr>"

text \<open>One round of the loop over \<^verbatim>\<open>source_node.neighbors\<close> in
  \<^verbatim>\<open>start_rreq_flooding\<close>, for the neighbour with id \<open>nb\<close>.\<close>

definition seed_neighbor :: "nat \<Rightarrow> nat \<Rightarrow> AODVSimulator \<Rightarrow> AODVSimulator" where
  "seed_neighbor src nb s =
     (let pth = [src, nb];
          packet = new_packet (packet_counter s) RREQ pth default_base_speed (Some src) (Some nb)
      in s\<lparr>packet_queue := packet_queue s @ [packet],
           packet_counter := packet_counter s + 1,
           discovered_paths := discovered_paths s @ [pth],
           nodes := mark_seen (nodes s) src (source s, rreq_broadcast_id s)\<rparr>)"

text \<open>\<^verbatim>\<open>start_rreq_flooding\<close>. Indexing \<^verbatim>\<open>self.nodes\<close> with \<^verbatim>\<open>None\<close> is a
  \<^verbatim>\<open>TypeError\<close>, with an id beyond the list an \<^verbatim>\<open>IndexError\<close>.\<close>

definition start_rreq_flooding :: "AODVSimulator \<Rightarrow> error + AODVSimulator" where
  "start_rreq_flooding s =
     (let s1 = s\<lparr>rreq_broadcast_id := packet_counter s, packet_counter := packet_counter s + 1\<rparr>
      in case source s1 of
           None \<Rightarrow> Inl TypeError
         | Some src \<Rightarrow>
             if src < length (nodes s1)
             then Inr (fold (seed_neighbor src) (neighbors (nodes s1 ! src)) s1)
             else Inl IndexError)"

definition start_simulation :: "AODVSimulator \<Rightarrow> error + AODVSimulator" where
  "start_simulation s =
     (if source s = None \<or> destination s = None then Inr s
      else start_rreq_flooding ((reset_simulation s)\<lparr>simulation_running := True\<rparr>))"

subsection \<open>Replies, data and route errors\<close>

text \<open>\<^verbatim>\<open>send_rrep_back(path)\<close>: the reply is queued first; the log and recorder
  arguments \<^verbatim>\<open>path[-1]\<close>, \<^verbatim>\<open>path[-2]\<close> raise on a path of fewer than two nodes.\<close>

definition send_rrep_back :: "AODVSimulator \<Rightarrow> nat list \<Rightarrow> error + AODVSimulator" where
  "send_rrep_back s pth =
     (let rrep_packet = new_packet (packet_counter s) RREP (rev pth) default_base_speed None None;
          s1 = s\<lparr>packet_queue := packet_queue s @ [rrep_packet],
                 packet_counter := packet_counter s + 1\<rparr>
      in if length pth < 2 then Inl IndexError else Inr s1)"

text \<open>\<^verbatim>\<open>send_data_packet\<close>: likewise \<^verbatim>\<open>self.final_path[1]\<close> raises on a final path
  of fewer than two nodes.\<close>

definition send_data_packet :: "AODVSimulator \<Rightarrow> error + AODVSimulator" where
  "send_data_packet s =
     (let data_packet = new_packet (packet_counter s) DATA (final_path s) default_base_speed None None;
          s1 = s\<lparr>packet_queue := packet_queue s @ [data_packet],
                 packet_counter := packet_counter s + 1\<rparr>
      in if length (final_path s) < 2 then Inl IndexError else Inr s1)"

text \<open>\<^verbatim>\<open>random.randint(a, b)\<close> returns some integer of \<open>[a, b]\<close>. The draw is a
  parameter \<open>r\<close> (any natural number), mapped onto the interval: every value of the
  interval is the image of some \<open>r\<close>, and no other value is.\<close>

definition randint :: "nat \<Rightarrow> nat \<Rightarrow> nat \<Rightarrow> nat" where
  "randint a b r = a + r mod (b - a + 1)"

text \<open>\<^verbatim>\<open>simulate_route_error\<close>, with the random draw \<open>r\<close>.\<close>

definition simulate_route_error :: "nat \<Rightarrow> AODVSimulator \<Rightarrow> AODVSimulator" where
  "simulate_route_error r s =
     (if final_path s = [] \<or> length (final_path s) < 3 then s
      else
        let break_index = randint 1 (length (final_path s) - 2) r;
            from_n = final_path s ! (break_index - 1);
            to_n = final_path s ! break_index;
            rerr_path = [from_n, to_n];
            rerr_packet = new_packet (packet_counter s) RERR rerr_path default_base_speed (Some from_n) (Some to_n)
        in s\<lparr>packet_queue := packet_queue s @ [rerr_packet],
             packet_counter := packet_counter s + 1\<rparr>)"

subsection \<open>Packet completion\<close>

text \<open>One round of the loop over \<^verbatim>\<open>current_node.neighbors\<close> in
  \<^verbatim>\<open>process_packet_completion\<close> (the \<^verbatim>\<open>RREQ\<close> branch), for the neighbour with id
  \<open>nb\<close>; \<open>cur\<close> is \<^verbatim>\<open>current_node_id\<close> and \<open>pth\<close> is \<^verbatim>\<open>packet.path\<close>.\<close>

definition forward_rreq :: "nat \<Rightarrow> nat list \<Rightarrow> nat \<Rightarrow> AODVSimulator \<Rightarrow> AODVSimulator" where
  "forward_rreq cur pth nb s =
     (if nb \<notin> set pth then
        let rreq_key = (source s, rreq_broadcast_id s)
        in if rreq_key \<notin> rreq_seen (nodes s ! nb) then
             let new_path = pth @ [nb];
                 new_pkt = new_packet (packet_counter s) RREQ new_path default_base_speed (Some cur) (Some nb)
             in s\<lparr>packet_queue := packet_queue s @ [new_pkt],
                  packet_counter := packet_counter s + 1,
                  discovered_paths := discovered_paths s @ [new_path],
                  nodes := mark_seen (nodes s) nb rreq_key\<rparr>
           else s
      else s)"

text \<open>The forwarding part of the \<^verbatim>\<open>RREQ\<close> branch: \<^verbatim>\<open>self.nodes[current_node_id]\<close>,
  then the loop over its neighbours. The loop mutates the records of other nodes, never
  the list it iterates.\<close>

definition forward_to_neighbors :: "AODVSimulator \<Rightarrow> nat \<Rightarrow> nat list \<Rightarrow> error + AODVSimulator" where
  "forward_to_neighbors s cur pth =
     (if cur < length (nodes s)
      then Inr (fold (forward_rreq cur pth) (neighbors (nodes s ! cur)) s)
      else Inl IndexError)"

text \<open>The destination part of the \<^verbatim>\<open>RREQ\<close> branch, up to and including the test that
  ends in \<^verbatim>\<open>return\<close>: the new state and whether the function returned there.\<close>

definition rreq_at_destination ::
  "AODVSimulator \<Rightarrow> nat list \<Rightarrow> error + (AODVSimulator \<times> bool)" where
  "rreq_at_destination s pth =
     (let s1 = s\<lparr>all_discovered_paths_to_dest := all_discovered_paths_to_dest s @ [pth]\<rparr>;
          hops = length pth - 1;
          r2 = (if enat hops < best_path_hop_count s1
                then send_rrep_back (s1\<lparr>best_path_hop_count := enat hops, final_path := pth\<rparr>) pth
                else Inr s1)
      in case r2 of
           Inl e \<Rightarrow> Inl e
         | Inr s2 \<Rightarrow>
             if length (all_discovered_paths_to_dest s2) \<ge> 5 \<or> best_path_hop_count s2 \<le> 2
             then Inr (s2\<lparr>route_established := True\<rparr>, True)
             else Inr (s2, False))"

text \<open>\<^verbatim>\<open>process_packet_completion\<close>. \<^verbatim>\<open>packet.path[-1]\<close> raises on an empty path.
  The \<^verbatim>\<open>else\<close> parts of the \<^verbatim>\<open>RREP\<close> and \<^verbatim>\<open>DATA\<close> branches only write to the log
  and the recorder, under a length guard.\<close>

definition process_packet_completion :: "AODVSimulator \<Rightarrow> AnimatedPacket \<Rightarrow> error + AODVSimulator" where
  "process_packet_completion s packet =
     (if path packet = [] then Inl IndexError
      else
        let current_node_id = last (path packet)
        in case packet_type packet of
             RREQ \<Rightarrow>
               (if Some current_node_id = destination s then
                  (case rreq_at_destination s (path packet) of
                     Inl e \<Rightarrow> Inl e
                   | Inr (s2, returned) \<Rightarrow>
                       if returned then Inr s2
                       else forward_to_neighbors s2 current_node_id (path packet))
                else forward_to_neighbors s current_node_id (path packet))
           | RREP \<Rightarrow>
               (if Some current_node_id = source s then send_data_packet s else Inr s)
           | DATA \<Rightarrow>
               (if Some current_node_id = destination s
                then Inr (s\<lparr>simulation_complete := True, simulation_running := False\<rparr>)
                else Inr s)
           | RERR \<Rightarrow>
               (if Some current_node_id = source s then start_rreq_flooding s else Inr s))"

subsection \<open>The tick driver\<close>

text \<open>The mobility step of \<^verbatim>\<open>update\<close>: every moving node replaces its neighbour list by
  the nodes other than itself that are in range, in the order of \<^verbatim>\<open>self.nodes\<close>
  (\<^verbatim>\<open>Node.update_neighbors\<close>); a node at rest keeps its list. \<open>in_range i j\<close> is the
  outcome of the distance test of node \<open>i\<close> against node \<open>j\<close> at that moment.\<close>

definition update_neighbors :: "(nat \<Rightarrow> nat \<Rightarrow> bool) \<Rightarrow> nat \<Rightarrow> nat \<Rightarrow> Node \<Rightarrow> Node" where
  "update_neighbors in_range n i nd =
     (if \<not> is_moving nd then nd
      else nd\<lparr>neighbors := filter (\<lambda>j. j \<noteq> i \<and> in_range i j) [0..<n]\<rparr>)"

definition move_nodes :: "(nat \<Rightarrow> nat \<Rightarrow> bool) \<Rightarrow> Node list \<Rightarrow> Node list" where
  "move_nodes in_range ns =
     map (\<lambda>i. update_neighbors in_range (length ns) i (ns ! i)) [0..<length ns]"

text \<open>The second loop of \<^verbatim>\<open>update\<close>: each completed packet is taken out of the active
  list and handed to \<^verbatim>\<open>process_packet_completion\<close>; an exception ends the loop.\<close>

fun complete_packets :: "AnimatedPacket list \<Rightarrow> AODVSimulator \<Rightarrow> error + AODVSimulator" where
  "complete_packets [] s = Inr s"
| "complete_packets (p # ps) s =
     (case process_packet_completion (s\<lparr>active_packets := remove1 p (active_packets s)\<rparr>) p of
        Inl e \<Rightarrow> Inl e
      | Inr s' \<Rightarrow> complete_packets ps s')"

text \<open>The \<^verbatim>\<open>while\<close> loop of \<^verbatim>\<open>update\<close> on the pair (queue, active list):
  \<^verbatim>\<open>while self.packet_queue and len(self.active_packets) < 5\<close>.\<close>

fun refill :: "AnimatedPacket list \<Rightarrow> AnimatedPacket list \<Rightarrow> AnimatedPacket list \<times> AnimatedPacket list" where
  "refill [] act = ([], act)"
| "refill (p # q) act = (if length act < 5 then refill q (act @ [p]) else (p # q, act))"

text \<open>\<^verbatim>\<open>update\<close> up to and including the refill of the active list.\<close>

definition update_drain ::
  "(nat \<Rightarrow> nat \<Rightarrow> bool) \<Rightarrow> double \<Rightarrow> AODVSimulator \<Rightarrow> error + AODVSimulator" where
  "update_drain in_range delta_time s =
     (let s1 = (if mobility_enabled s then s\<lparr>nodes := move_nodes in_range (nodes s)\<rparr> else s);
          ups = map (\<lambda>p. AnimatedPacket_update p delta_time (animation_speed s1)) (active_packets s1);
          s2 = s1\<lparr>active_packets := map fst ups\<rparr>;
          completed_packets = map fst (filter snd ups)
      in case complete_packets completed_packets s2 of
           Inl e \<Rightarrow> Inl e
         | Inr s3 \<Rightarrow>
             let (q, a) = refill (packet_queue s3) (active_packets s3)
             in Inr (s3\<lparr>packet_queue := q, active_packets := a\<rparr>))"

text \<open>The last statement of \<^verbatim>\<open>update\<close>, on the state the refill leaves.\<close>

definition update_finish :: "AODVSimulator \<Rightarrow> error + AODVSimulator" where
  "update_finish s =
     (if active_packets s = [] \<and> packet_queue s = [] \<and> simulation_running s then
        if final_path s \<noteq> [] then send_data_packet s
        else Inr (s\<lparr>simulation_complete := True, simulation_running := False\<rparr>)
      else Inr s)"

text \<open>\<^verbatim>\<open>AODVSimulator.update\<close>.\<close>

definition AODVSimulator_update ::
  "(nat \<Rightarrow> nat \<Rightarrow> bool) \<Rightarrow> double \<Rightarrow> AODVSimulator \<Rightarrow> error + AODVSimulator" where
  "AODVSimulator_update in_range delta_time s =
     (if \<not> simulation_running s then Inr s
      else case update_drain in_range delta_time s of
             Inl e \<Rightarrow> Inl e
           | Inr s4 \<Rightarrow> update_finish s4)"

subsection \<open>The commands of the driver\<close>

definition set_animation_speed :: "double \<Rightarrow> AODVSimulator \<Rightarrow> AODVSimulator" where
  "set_animation_speed speed s = s\<lparr>animation_speed := speed\<rparr>"

text \<open>\<^verbatim>\<open>toggle_mobility\<close>: \<^verbatim>\<open>start_moving\<close> or \<^verbatim>\<open>stop_moving\<close> on every node (the random
  velocities are part of the abstracted geometry).\<close>

definition toggle_mobility :: "AODVSimulator \<Rightarrow> AODVSimulator" where
  "toggle_mobility s =
     (let m = \<not> mobility_enabled s
      in s\<lparr>mobility_enabled := m, nodes := map (\<lambda>n. n\<lparr>is_moving := m\<rparr>) (nodes s)\<rparr>)"

text \<open>The commands \<^verbatim>\<open>main()\<close> issues to the engine, one per button, click or frame:
  the frame update, the speed slider, the mobility toggle, "Apply" (a new topology of the
  chosen size), "RUN SIM", "RESET", "SIM RERR", "NEW FORM" and a click on a node. A
  command that builds a topology carries the outcome of \<^verbatim>\<open>setup_nodes\<close>, the frame
  update carries the range test of that frame, "SIM RERR" carries its random draw.\<close>

datatype command =
    Tick "nat \<Rightarrow> nat \<Rightarrow> bool" double
  | SetSpeed double
  | ToggleMobility
  | ApplyNodes "nat list list"
  | RunSim
  | Reset
  | SimRerr nat
  | NewFormation "nat list list"
  | ClickNode nat

fun exec :: "command \<Rightarrow> AODVSimulator \<Rightarrow> error + AODVSimulator" where
  "exec (Tick in_range delta_time) s = AODVSimulator_update in_range delta_time s"
| "exec (SetSpeed v) s = Inr (set_animation_speed v s)"
| "exec ToggleMobility s = Inr (toggle_mobility s)"
| "exec (ApplyNodes adj) s = Inr (s\<lparr>nodes := setup_nodes adj, source := None, destination := None\<rparr>)"
| "exec RunSim s =
     (if source s \<noteq> None \<and> destination s \<noteq> None then start_simulation s else Inr s)"
| "exec Reset s = Inr ((reset_simulation s)\<lparr>source := None, destination := None\<rparr>)"
| "exec (SimRerr r) s = Inr (simulate_route_error r s)"
| "exec (NewFormation adj) s =
     Inr (reset_simulation (s\<lparr>nodes := setup_nodes adj, source := None, destination := None\<rparr>))"
| "exec (ClickNode i) s =
     Inr (if source s = None then s\<lparr>source := Some i\<rparr>
          else if destination s = None \<and> Some i \<noteq> source s then s\<lparr>destination := Some i\<rparr>
          else s\<lparr>source := Some i, destination := None\<rparr>)"

text \<open>What \<^verbatim>\<open>setup_nodes\<close> guarantees of the neighbour lists it builds: both of its
  linking loops run over pairs \<open>i \<noteq> j\<close> of nodes of the list, so every neighbour is a node
  of the topology other than the node itself (lemma \<open>adjacency_ok_build_adjacency\<close>).\<close>

definition adjacency_ok :: "nat list list \<Rightarrow> bool" where
  "adjacency_ok adj = (\<forall>i < length adj. \<forall>j \<in> set (adj ! i). j < length adj \<and> j \<noteq> i)"

definition topology_ok :: "Node list \<Rightarrow> bool" where
  "topology_ok ns = adjacency_ok (map neighbors ns)"

text \<open>A command the driver can issue in state \<open>s\<close>: a topology is one \<^verbatim>\<open>setup_nodes\<close>
  can build, a click hits an existing node.\<close>

fun command_ok :: "AODVSimulator \<Rightarrow> command \<Rightarrow> bool" where
  "command_ok s (ApplyNodes adj) = adjacency_ok adj"
| "command_ok s (NewFormation adj) = adjacency_ok adj"
| "command_ok s (ClickNode i) = (i < length (nodes s))"
| "command_ok s c = True"

text \<open>The engine states the driver can produce: the freshly constructed engine, and every
  state a command leads to without an exception.\<close>

inductive reachable :: "AODVSimulator \<Rightarrow> bool" where
  reachable_init: "adjacency_ok adj \<Longrightarrow> reachable (init_simulator adj)"
| reachable_step: "reachable s \<Longrightarrow> command_ok s c \<Longrightarrow> exec c s = Inr s' \<Longrightarrow> reachable s'"

text \<open>A run of commands from a state, stopping at the first exception.\<close>

fun exec_all :: "command list \<Rightarrow> AODVSimulator \<Rightarrow> error + AODVSimulator" where
  "exec_all [] s = Inr s"
| "exec_all (c # cs) s = (case exec c s of Inl e \<Rightarrow> Inl e | Inr s' \<Rightarrow> exec_all cs s')"

text \<open>The commands that begin a new session: "RESET", "NEW FORM", and "RUN SIM" when
  source and destination are chosen.\<close>

fun session_reset :: "command \<Rightarrow> AODVSimulator \<Rightarrow> bool" where
  "session_reset Reset s = True"
| "session_reset (NewFormation adj) s = True"
| "session_reset RunSim s = (source s \<noteq> None \<and> destination s \<noteq> None)"
| "session_reset c s = False"

subsection \<open>Notions used in the statements\<close>

text \<open>A packet on its way: not completed, with at least one hop ahead of its current
  node. Every packet the constructor builds from a path of two or more nodes is in flight.\<close>

definition in_flight :: "AnimatedPacket \<Rightarrow> bool" where
  "in_flight p = (\<not> completed p \<and> current_node_index p + 1 < length (path p))"

text \<open>A packet at the last node of its path, as \<^verbatim>\<open>update\<close> leaves it on completion.\<close>

definition arrived :: "AnimatedPacket \<Rightarrow> bool" where
  "arrived p = (completed p \<and> progress p = double_of_nat 1 \<and> current_node_index p + 1 = length (path p))"

text \<open>Loop freedom of a state: every \<^verbatim>\<open>RREQ\<close> packet that is active or queued, and every
  path recorded in \<^verbatim>\<open>discovered_paths\<close> (where both procedures that create \<^verbatim>\<open>RREQ\<close>
  packets record the path of each packet they create), visits no node twice.\<close>

definition loop_free :: "AODVSimulator \<Rightarrow> bool" where
  "loop_free s =
     ((\<forall>p \<in> set (active_packets s) \<union> set (packet_queue s).
          packet_type p = RREQ \<longrightarrow> distinct (path p))
      \<and> (\<forall>pth \<in> set (discovered_paths s). distinct pth))"

text \<open>The packets a procedure has appended to the queue of \<open>s\<close> on the way to \<open>s'\<close>.\<close>

definition spawned :: "AODVSimulator \<Rightarrow> AODVSimulator \<Rightarrow> AnimatedPacket list" where
  "spawned s s' = drop (length (packet_queue s)) (packet_queue s')"

text \<open>The node a packet is directed at: the last node of its path.\<close>

definition target :: "AnimatedPacket \<Rightarrow> nat" where
  "target p = last (path p)"

text \<open>A run of commands in which each command is one the driver can issue in the state it
  meets.\<close>

fun commands_ok :: "AODVSimulator \<Rightarrow> command list \<Rightarrow> bool" where
  "commands_ok s [] = True"
| "commands_ok s (c # cs) =
     (command_ok s c \<and> (case exec c s of Inl e \<Rightarrow> True | Inr s' \<Rightarrow> commands_ok s' cs))"

subsection \<open>Concrete topologies and runs\<close>

text \<open>A frame in which no node is in range of another (of no effect while the nodes are at
  rest).\<close>

definition nobody_in_range :: "nat \<Rightarrow> nat \<Rightarrow> bool" where
  "nobody_in_range i j = False"

text \<open>A star: node 0 has the six neighbours 1 to 6. Source 0 and destination 6 are
  chosen by two clicks and the simulation is started.\<close>

definition star_adj :: "nat list list" where
  "star_adj = [[1, 2, 3, 4, 5, 6], [0], [0], [0], [0], [0], [0]]"

definition star_commands :: "command list" where
  "star_commands = [ClickNode 0, ClickNode 6, RunSim]"

subsection \<open>Delivery of data during a run\<close>

text \<open>In the frame update \<open>c\<close> issued in state \<open>s\<close>, a \<^verbatim>\<open>DATA\<close> packet of the active list
  completes at the destination.\<close>

fun data_delivered :: "command \<Rightarrow> AODVSimulator \<Rightarrow> bool" where
  "data_delivered (Tick in_range delta_time) s =
     (simulation_running s \<and>
      (\<exists>p \<in> set (active_packets s).
          packet_type p = DATA \<and> Some (last (path p)) = destination s
          \<and> snd (AnimatedPacket_update p delta_time (animation_speed s))))"
| "data_delivered c s = False"

fun delivered_in_run :: "command list \<Rightarrow> AODVSimulator \<Rightarrow> bool" where
  "delivered_in_run [] s = False"
| "delivered_in_run (c # cs) s =
     (data_delivered c s \<or> (case exec c s of Inl e \<Rightarrow> False | Inr s' \<Rightarrow> delivered_in_run cs s'))"

text \<open>A run that stays within the session: none of its commands begins a new one.\<close>

fun within_session :: "command list \<Rightarrow> AODVSimulator \<Rightarrow> bool" where
  "within_session [] s = True"
| "within_session (c # cs) s =
     (\<not> session_reset c s \<and> (case exec c s of Inl e \<Rightarrow> True | Inr s' \<Rightarrow> within_session cs s'))"

text \<open>Three nodes: nodes 0 and 1 are in range of each other, node 2 is isolated.\<close>

definition island_adj :: "nat list list" where
  "island_adj = [[1], [0], []]"

text \<open>A run on that topology: a route \<open>[0, 1]\<close> is found and the reply is on its way
  when a click on node 0 makes it the source again and clears the destination; the reply
  then reaches the source and the data packet it triggers is active. The run that follows
  chooses node 1 as destination again and lets two frames pass.\<close>

definition lost_destination_commands :: "command list" where
  "lost_destination_commands =
     [ClickNode 0, ClickNode 1, RunSim, Tick nobody_in_range (double_of_nat 2), Tick nobody_in_range (double_of_nat 2),
      ClickNode 0, Tick nobody_in_range (double_of_nat 2)]"

definition redelivery_commands :: "command list" where
  "redelivery_commands = [ClickNode 1, Tick nobody_in_range (double_of_nat 2), Tick nobody_in_range (double_of_nat 2)]"

text \<open>A line of four nodes \<open>0 - 1 - 2 - 3\<close>; source 0 and destination 3 are chosen, the
  simulation is started, the first frame activates the seed packet \<open>[0, 1]\<close> and the
  second completes it at node 1.\<close>

definition line_adj :: "nat list list" where
  "line_adj = [[1], [0, 2], [1, 3], [2]]"

definition line_commands :: "command list" where
  "line_commands =
     [ClickNode 0, ClickNode 3, RunSim, Tick nobody_in_range (double_of_nat 2), Tick nobody_in_range (double_of_nat 2)]"

text \<open>The relation between the states before and after a stretch of forwarding, for the flood
  \<open>(source, rreq_broadcast_id)\<close> of the state before: the queue has only grown at its end,
  the flood is still the current one, the \<^verbatim>\<open>RREQ\<close> packets appended are directed at
  pairwise different nodes whose records did not contain the flood, and every record is
  what it was, with the flood added exactly for those nodes.\<close>

definition forwarded_once :: "AODVSimulator \<Rightarrow> AODVSimulator \<Rightarrow> bool" where
  "forwarded_once s s' =
     (let key = (source s, rreq_broadcast_id s);
          fw = filter (\<lambda>q. packet_type q = RREQ) (spawned s s')
      in take (length (packet_queue s)) (packet_queue s') = packet_queue s
         \<and> source s' = source s \<and> rreq_broadcast_id s' = rreq_broadcast_id s
         \<and> map neighbors (nodes s') = map neighbors (nodes s)
         \<and> distinct (map target fw)
         \<and> (\<forall>q \<in> set fw. target q < length (nodes s) \<and> key \<notin> rreq_seen (nodes s ! target q))
         \<and> (\<forall>n < length (nodes s).
               rreq_seen (nodes s' ! n)
                 = rreq_seen (nodes s ! n) \<union> (if n \<in> target ` set fw then {key} else {})))"

text \<open>A packet that the forwarding loop has made from one of the completed packets \<open>ps\<close>:
  its path is the path of that packet followed by its own target, which is a neighbour of
  the node where that packet completed and is not on that packet's path.\<close>

definition forwarded_from :: "AnimatedPacket list \<Rightarrow> Node list \<Rightarrow> AnimatedPacket \<Rightarrow> bool" where
  "forwarded_from ps ns q =
     (\<exists>p \<in> set ps. path p \<noteq> [] \<and> last (path p) < length ns
        \<and> target q \<in> set (neighbors (ns ! last (path p)))
        \<and> target q \<notin> set (path p)
        \<and> path q = path p @ [target q]
        \<and> from_node q = Some (last (path p)))"

text \<open>A mobile topology: nodes 0, 1 and 2 are mutually in range, node 3 is out of range of
  all of them. Mobility is switched on before the simulation starts from source 0 to
  destination 3. For three frames the ranges stay as they are; in the following frame node
  3 has come into range of node 1.\<close>

definition triangle_adj :: "nat list list" where
  "triangle_adj = [[1, 2], [0, 2], [0, 1], []]"

definition triangle_range :: "nat \<Rightarrow> nat \<Rightarrow> bool" where
  "triangle_range i j = (i < 3 \<and> j < 3)"

definition triangle_plus_range :: "nat \<Rightarrow> nat \<Rightarrow> bool" where
  "triangle_plus_range i j = (i < 3 \<and> j < 3 \<or> i = 1 \<and> j = 3 \<or> i = 3 \<and> j = 1)"

definition mobile_commands :: "command list" where
  "mobile_commands =
     [ClickNode 0, ClickNode 3, ToggleMobility, RunSim,
      Tick triangle_range (double_of_nat 2), Tick triangle_range (double_of_nat 2), Tick triangle_range (double_of_nat 2)]"

text \<open>A fork: node 0 has the neighbours 1 and 2, node 3 hangs behind node 2. Source 0 and
  destination 1 are chosen, the simulation is started and one frame activates the two seed
  packets.\<close>

definition fork_adj :: "nat list list" where
  "fork_adj = [[1, 2], [0], [0, 3], [2]]"

definition fork_commands :: "command list" where
  "fork_commands = [ClickNode 0, ClickNode 1, RunSim, Tick nobody_in_range (double_of_nat 2)]"

text \<open>Eight nodes with the links \<open>0 - 3\<close>, \<open>3 - 5\<close> and \<open>5 - 7\<close>. Source 0 and destination 7
  are chosen and the simulation runs for seven frames, after which the path \<open>[0, 3, 5, 7]\<close>
  has been found and the reply is on its way.\<close>

definition chain_adj :: "nat list list" where
  "chain_adj = [[3], [], [], [0, 5], [], [3, 7], [], [5]]"

definition chain_commands :: "command list" where
  "chain_commands =
     [ClickNode 0, ClickNode 7, RunSim] @ replicate 7 (Tick nobody_in_range (double_of_nat 2))"

subsection \<open>How \<^verbatim>\<open>setup_nodes\<close> links the nodes\<close>

text \<open>\<^verbatim>\<open>Node.add_neighbor\<close> on a neighbour list of ids.\<close>

definition add_neighbor :: "nat list \<Rightarrow> nat \<Rightarrow> nat list" where
  "add_neighbor nbs nb = (if nb \<notin> set nbs then nbs @ [nb] else nbs)"

text \<open>The first linking loop of \<^verbatim>\<open>setup_nodes\<close>: over all pairs \<open>i \<noteq> j\<close>, node \<open>j\<close> becomes
  a neighbour of node \<open>i\<close> when it is within the range of \<open>i\<close>. \<open>in_range i j\<close> is the
  outcome of that distance test.\<close>

definition basic_links :: "(nat \<Rightarrow> nat \<Rightarrow> bool) \<Rightarrow> nat \<Rightarrow> nat list list" where
  "basic_links in_range n =
     map (\<lambda>i. fold (\<lambda>j nbs. if i \<noteq> j \<and> in_range i j then add_neighbor nbs j else nbs)
                 [0..<n] [])
         [0..<n]"

text \<open>One round of the second loop, for the pair \<open>(i, j)\<close>: when the pair is in the outer
  band of the range and the coin flip succeeds (\<open>extra i j\<close>), each becomes a neighbour of
  the other.\<close>

definition extra_link :: "(nat \<Rightarrow> nat \<Rightarrow> bool) \<Rightarrow> nat \<Rightarrow> nat \<Rightarrow> nat list list \<Rightarrow> nat list list" where
  "extra_link extra i j adj =
     (if i \<noteq> j \<and> extra i j then
        (let adj1 = adj[i := add_neighbor (adj ! i) j]
         in adj1[j := add_neighbor (adj1 ! j) i])
      else adj)"

text \<open>The second linking loop: \<^verbatim>\<open>for i in range(n): for j in range(i + 1, n)\<close>.\<close>

definition extra_links :: "(nat \<Rightarrow> nat \<Rightarrow> bool) \<Rightarrow> nat \<Rightarrow> nat list list \<Rightarrow> nat list list" where
  "extra_links extra n adj =
     fold (\<lambda>i a. fold (extra_link extra i) [i + 1..<n] a) [0..<n] adj"

text \<open>The neighbour lists \<^verbatim>\<open>setup_nodes\<close> builds for \<open>n\<close> placed nodes.\<close>

definition build_adjacency ::
  "(nat \<Rightarrow> nat \<Rightarrow> bool) \<Rightarrow> (nat \<Rightarrow> nat \<Rightarrow> bool) \<Rightarrow> nat \<Rightarrow> nat list list" where
  "build_adjacency in_range extra n = extra_links extra n (basic_links in_range n)"

section \<open>Properties of the engine\<close>

subsection \<open>Floats\<close>

text \<open>The constant for \<^verbatim>\<open>0.8\<close> lies within less than half a unit in the last place
  (\<open>2 ^ -53\<close> between \<open>1/2\<close> and \<open>1\<close>) of \<open>4/5\<close>: it is the double nearest to it.\<close>

lemma default_base_speed_nearest:
  "double_value default_base_speed = Some (7205759403792794 / 2 ^ 53)
   \<and> \<bar>7205759403792794 / 2 ^ 53 - 4 / 5 :: rat\<bar> < 1 / 2 ^ 54"
  by (simp add: default_base_speed_def)

text \<open>Rounding at work: ties go to the even significand, below the smallest normal number
  the spacing stays \<open>2 ^ -1074\<close>, and past the largest double the result is an infinity.\<close>

lemma round_double_examples:
  "round_double (2 ^ 54 + 2) (- 54) = Finite 4503599627370496 (- 52)
   \<and> round_double (2 ^ 54 + 3) (- 54) = Finite 4503599627370497 (- 52)
   \<and> round_double (2 ^ 54 + 6) (- 54) = Finite 4503599627370498 (- 52)
   \<and> round_double 1 (- 1075) = Finite 0 0
   \<and> round_double 3 (- 1075) = Finite 2 (- 1074)
   \<and> round_double (2 ^ 54 - 2) 970 = Finite 9007199254740991 971
   \<and> round_double (2 ^ 54 - 1) 970 = PosInf
   \<and> round_double (1 - 2 ^ 54) 970 = NegInf"
  by code_simp

lemma double_of_nat_values:
  "double_of_nat 0 = Finite 0 0 \<and> double_of_nat 1 = Finite 4503599627370496 (- 52)
   \<and> double_of_nat 2 = Finite 4503599627370496 (- 51)"
  by code_simp

text \<open>The float sum \<^verbatim>\<open>0.1 + 0.2\<close> is \<^verbatim>\<open>0.30000000000000004\<close>, and \<^verbatim>\<open>0.8 * 0.125\<close> is the float
  \<^verbatim>\<open>0.1\<close>.\<close>

lemma double_arithmetic_examples:
  "double_add (Finite 7205759403792794 (- 56)) (Finite 7205759403792794 (- 55))
     = Finite 5404319552844596 (- 54)
   \<and> double_mul default_base_speed (round_double 1 (- 3)) = Finite 7205759403792794 (- 56)
   \<and> \<not> double_ge (Finite 9007199254740991 (- 53)) (double_of_nat 1)
   \<and> double_ge (double_of_nat 1) (double_of_nat 1)"
  by code_simp

text \<open>Rounding changes nothing where nothing needs rounding: a number \<open>m * 2 ^ e\<close> whose
  significand has at most 53 bits and which lies in the range of the format is only brought
  to normal form.\<close>

lemma round_double_unfold:
  assumes "m \<noteq> 0" "a = \<bar>m\<bar>" "k = e + bitlen a - 1" "t = max (k - 52) (- 1074)"
    and "n = (if t \<le> e then a * 2 ^ nat (e - t) else nearest_even a (nat (t - e)))"
  shows "round_double m e
       = (if 1023 < k \<or> (k = 1023 \<and> n = 2 ^ 53) then (if 0 < m then PosInf else NegInf)
          else if n = 0 then Finite 0 0
          else if n = 2 ^ 53 then Finite (sgn m * 2 ^ 52) (t + 1)
          else Finite (sgn m * n) t)"
  unfolding assms(2-5) round_double_def Let_def using assms(1) by (simp only: if_False)

lemma round_double_exact:
  assumes m: "m \<noteq> 0" and b: "bitlen \<bar>m\<bar> \<le> 53" and e: "- 1074 \<le> e"
    and k: "e + bitlen \<bar>m\<bar> \<le> 1024"
  shows "round_double m e
       = (let t = max (e + bitlen \<bar>m\<bar> - 53) (- 1074) in Finite (m * 2 ^ nat (e - t)) t)"
proof -
  define a where "a = \<bar>m\<bar>"
  define k where "k = e + bitlen a - 1"
  define t where "t = max (k - 52) (- 1074)"
  define n where "n = (if t \<le> e then a * 2 ^ nat (e - t) else nearest_even a (nat (t - e)))"
  from m have a0: "0 < a" by (simp add: a_def)
  from b e have te: "t \<le> e" by (simp add: t_def k_def a_def)
  then have n: "n = a * 2 ^ nat (e - t)" by (simp add: n_def)
  have t53: "e + bitlen a - 53 \<le> t" by (simp add: t_def k_def)
  from bitlen_bounds[OF a0] have "a < 2 ^ nat (bitlen a)" by simp
  then have "n < 2 ^ nat (bitlen a) * 2 ^ nat (e - t)"
    by (simp add: n)
  also have "\<dots> = 2 ^ (nat (bitlen a) + nat (e - t))" by (simp add: power_add)
  also have "\<dots> \<le> (2::int) ^ 53"
  proof (rule power_increasing)
    from te t53 bitlen_nonneg[of a] show "nat (bitlen a) + nat (e - t) \<le> 53" by linarith
  qed simp
  finally have n53: "n < 2 ^ 53" .
  from a0 have n0: "0 < n" by (simp add: n)
  have "sgn m * a = m" by (simp add: a_def mult_sgn_abs)
  then have sg: "sgn m * n = m * 2 ^ nat (e - t)"
    by (simp add: n mult.assoc[symmetric])
  from k have k1023: "\<not> 1023 < k" by (simp add: a_def k_def)
  from round_double_unfold[OF m a_def k_def t_def n_def] n53 n0 k1023
  have "round_double m e = Finite (sgn m * n) t"
    by simp
  with sg show ?thesis by (simp add: Let_def t_def k_def a_def)
qed

lemma double_of_nat_exact:
  assumes "0 < n" "n < 2 ^ 53"
  shows "\<exists>m e. double_of_nat n = Finite m e \<and> e \<le> 0 \<and> m = int n * 2 ^ nat (- e)"
proof -
  from assms have "bitlen \<bar>int n\<bar> \<le> 53" by (simp add: bitlen_le_iff_power)
  moreover from assms have "0 < bitlen \<bar>int n\<bar>" using bitlen_eq_zero_iff[of "int n"] bitlen_nonneg[of "int n"] by simp
  ultimately show ?thesis
    using assms round_double_exact[of "int n" 0]
    by (auto simp: double_of_nat_def Let_def max_def)
qed

subsection \<open>Packet motion\<close>

lemma update_completed: "completed p \<Longrightarrow> AnimatedPacket_update p dt m = (p, False)"
  by (simp add: AnimatedPacket_update_def)

lemma update_path: "path (fst (AnimatedPacket_update p dt m)) = path p"
  by (simp add: AnimatedPacket_update_def Let_def)

lemma update_packet_type: "packet_type (fst (AnimatedPacket_update p dt m)) = packet_type p"
  by (simp add: AnimatedPacket_update_def Let_def)

lemma update_in_flight:
  assumes "in_flight p"
  shows "(in_flight (fst (AnimatedPacket_update p dt m)) \<and> \<not> snd (AnimatedPacket_update p dt m))
       \<or> (arrived (fst (AnimatedPacket_update p dt m)) \<and> snd (AnimatedPacket_update p dt m))"
  using assms by (auto simp: AnimatedPacket_update_def Let_def in_flight_def arrived_def)

lemma update_calls_completed:
  "completed p \<Longrightarrow> update_calls p cs = (p, replicate (length cs) False)"
  by (induction cs) (simp_all add: update_completed)

lemma update_calls_in_flight:
  assumes "in_flight p"
  shows "length (filter id (snd (update_calls p cs))) \<le> 1
       \<and> (True \<in> set (snd (update_calls p cs)) \<longleftrightarrow> completed (fst (update_calls p cs)))
       \<and> (in_flight (fst (update_calls p cs)) \<or> arrived (fst (update_calls p cs)))
       \<and> path (fst (update_calls p cs)) = path p"
  using assms
proof (induction cs arbitrary: p)
  case Nil
  then show ?case by (simp add: in_flight_def)
next
  case (Cons c cs)
  obtain q r where qr: "AnimatedPacket_update p (fst c) (snd c) = (q, r)" by fastforce
  have pq: "path q = path p" using update_path[of p "fst c" "snd c"] qr by simp
  from update_in_flight[OF Cons.prems, of "fst c" "snd c"] qr
  consider (fly) "in_flight q" "\<not> r" | (arr) "arrived q" "r" by auto
  then show ?case
  proof cases
    case fly
    from Cons.IH[OF fly(1)] fly(2) qr pq show ?thesis
      by (auto simp: split_beta)
  next
    case arr
    then have cq: "completed q" by (simp add: arrived_def)
    from update_calls_completed[OF cq, of cs] cq arr qr pq show ?thesis
      by (auto simp: split_beta)
  qed
qed

subsection \<open>The shape of the state after each engine procedure\<close>

lemma length_mark_seen [simp]: "length (mark_seen ns i k) = length ns"
  by (simp add: mark_seen_def)

lemma neighbors_mark_seen [simp]: "map neighbors (mark_seen ns i k) = map neighbors ns"
  by (cases "i < length ns") (auto simp: mark_seen_def nth_list_update intro!: nth_equalityI split: if_splits)

lemma is_moving_mark_seen [simp]: "map is_moving (mark_seen ns i k) = map is_moving ns"
  by (cases "i < length ns") (auto simp: mark_seen_def nth_list_update intro!: nth_equalityI split: if_splits)

lemma rreq_seen_mark_seen:
  "j < length ns \<Longrightarrow> rreq_seen (mark_seen ns i k ! j) =
     (if j = i then insert k (rreq_seen (ns ! j)) else rreq_seen (ns ! j))"
  by (simp add: mark_seen_def nth_list_update)

lemma fold_forward_shape:
  "\<exists>q c d n. fold (forward_rreq cur pth) nbs s
       = s\<lparr>packet_queue := q, packet_counter := c, discovered_paths := d, nodes := n\<rparr>
     \<and> map neighbors n = map neighbors (nodes s) \<and> map is_moving n = map is_moving (nodes s)"
proof (induction nbs arbitrary: s)
  case Nil
  have "s = s\<lparr>packet_queue := packet_queue s, packet_counter := packet_counter s,
    discovered_paths := discovered_paths s, nodes := nodes s\<rparr>" by simp
  then show ?case by (metis fold_simps(1))
next
  case (Cons nb nbs)
  obtain q0 c0 d0 n0 where s0: "forward_rreq cur pth nb s
       = s\<lparr>packet_queue := q0, packet_counter := c0, discovered_paths := d0, nodes := n0\<rparr>"
     and n0: "map neighbors n0 = map neighbors (nodes s)" "map is_moving n0 = map is_moving (nodes s)"
  proof (cases "forward_rreq cur pth nb s = s")
    case True
    have "s = s\<lparr>packet_queue := packet_queue s, packet_counter := packet_counter s,
      discovered_paths := discovered_paths s, nodes := nodes s\<rparr>" by simp
    with True that show ?thesis by metis
  next
    case False
    then have "forward_rreq cur pth nb s = s\<lparr>packet_queue := packet_queue s @
                     [new_packet (packet_counter s) RREQ (pth @ [nb]) default_base_speed (Some cur) (Some nb)],
                  packet_counter := packet_counter s + 1,
                  discovered_paths := discovered_paths s @ [pth @ [nb]],
                  nodes := mark_seen (nodes s) nb (source s, rreq_broadcast_id s)\<rparr>"
      by (simp add: forward_rreq_def Let_def split: if_splits)
    then show ?thesis using that by simp
  qed
  from Cons.IH[of "forward_rreq cur pth nb s"] obtain q c d n where
    "fold (forward_rreq cur pth) nbs (forward_rreq cur pth nb s)
       = (forward_rreq cur pth nb s)\<lparr>packet_queue := q, packet_counter := c, discovered_paths := d, nodes := n\<rparr>"
    "map neighbors n = map neighbors (nodes (forward_rreq cur pth nb s))"
    "map is_moving n = map is_moving (nodes (forward_rreq cur pth nb s))"
    by blast
  with s0 n0 have "fold (forward_rreq cur pth) (nb # nbs) s
       = s\<lparr>packet_queue := q, packet_counter := c, discovered_paths := d, nodes := n\<rparr>
     \<and> map neighbors n = map neighbors (nodes s) \<and> map is_moving n = map is_moving (nodes s)"
    by simp
  then show ?case by blast
qed

lemma fold_seed_shape:
  "\<exists>q c d n. fold (seed_neighbor src) nbs s
       = s\<lparr>packet_queue := q, packet_counter := c, discovered_paths := d, nodes := n\<rparr>
     \<and> map neighbors n = map neighbors (nodes s) \<and> map is_moving n = map is_moving (nodes s)"
proof (induction nbs arbitrary: s)
  case Nil
  have "s = s\<lparr>packet_queue := packet_queue s, packet_counter := packet_counter s,
    discovered_paths := discovered_paths s, nodes := nodes s\<rparr>" by simp
  then show ?case by (metis fold_simps(1))
next
  case (Cons nb nbs)
  let ?s0 = "seed_neighbor src nb s"
  have s0: "?s0 = s\<lparr>packet_queue := packet_queue s @
                     [new_packet (packet_counter s) RREQ [src, nb] default_base_speed (Some src) (Some nb)],
                  packet_counter := packet_counter s + 1,
                  discovered_paths := discovered_paths s @ [[src, nb]],
                  nodes := mark_seen (nodes s) src (source s, rreq_broadcast_id s)\<rparr>"
    by (simp add: seed_neighbor_def Let_def)
  from Cons.IH[of ?s0] obtain q c d n where
    "fold (seed_neighbor src) nbs ?s0
       = ?s0\<lparr>packet_queue := q, packet_counter := c, discovered_paths := d, nodes := n\<rparr>"
    "map neighbors n = map neighbors (nodes ?s0)"
    "map is_moving n = map is_moving (nodes ?s0)"
    by blast
  with s0 have "fold (seed_neighbor src) (nb # nbs) s
       = s\<lparr>packet_queue := q, packet_counter := c, discovered_paths := d, nodes := n\<rparr>
     \<and> map neighbors n = map neighbors (nodes s) \<and> map is_moving n = map is_moving (nodes s)"
    by simp
  then show ?case by blast
qed

lemma forward_to_neighbors_shape:
  assumes "forward_to_neighbors s cur pth = Inr s'"
  shows "\<exists>q c d n. s' = s\<lparr>packet_queue := q, packet_counter := c, discovered_paths := d, nodes := n\<rparr>
     \<and> map neighbors n = map neighbors (nodes s) \<and> map is_moving n = map is_moving (nodes s)"
proof -
  from assms have "s' = fold (forward_rreq cur pth) (neighbors (nodes s ! cur)) s"
    by (auto simp: forward_to_neighbors_def split: if_splits)
  with fold_forward_shape[of cur pth "neighbors (nodes s ! cur)" s] show ?thesis by simp
qed

lemma start_rreq_flooding_shape:
  assumes "start_rreq_flooding s = Inr s'"
  shows "\<exists>q c d n. s' = s\<lparr>rreq_broadcast_id := packet_counter s, packet_queue := q,
          packet_counter := c, discovered_paths := d, nodes := n\<rparr>
     \<and> map neighbors n = map neighbors (nodes s) \<and> map is_moving n = map is_moving (nodes s)"
proof -
  let ?s1 = "s\<lparr>rreq_broadcast_id := packet_counter s, packet_counter := packet_counter s + 1\<rparr>"
  from assms obtain src where "s' = fold (seed_neighbor src) (neighbors (nodes ?s1 ! src)) ?s1"
    by (auto simp: start_rreq_flooding_def Let_def split: option.splits if_splits)
  with fold_seed_shape[of src "neighbors (nodes ?s1 ! src)" ?s1] show ?thesis
    by auto
qed

lemma send_data_packet_shape:
  assumes "send_data_packet s = Inr s'"
  shows "s' = s\<lparr>packet_queue := packet_queue s @ [new_packet (packet_counter s) DATA (final_path s) default_base_speed None None],
               packet_counter := packet_counter s + 1\<rparr> \<and> 2 \<le> length (final_path s)"
  using assms by (auto simp: send_data_packet_def Let_def split: if_splits)

lemma send_rrep_back_shape:
  assumes "send_rrep_back s pth = Inr s'"
  shows "s' = s\<lparr>packet_queue := packet_queue s @ [new_packet (packet_counter s) RREP (rev pth) default_base_speed None None],
               packet_counter := packet_counter s + 1\<rparr> \<and> 2 \<le> length pth"
  using assms by (auto simp: send_rrep_back_def Let_def split: if_splits)

lemma rreq_at_destination_shape:
  assumes "rreq_at_destination s pth = Inr (s', stop)"
  shows "\<exists>q c b f. s' = s\<lparr>all_discovered_paths_to_dest := all_discovered_paths_to_dest s @ [pth],
            best_path_hop_count := b, final_path := f, packet_queue := q, packet_counter := c,
            route_established := (stop \<or> route_established s)\<rparr>
         \<and> (b < best_path_hop_count s \<and> f = pth \<and> 2 \<le> length pth \<and> b = enat (length pth - 1)
              \<and> q = packet_queue s @ [new_packet (packet_counter s) RREP (rev pth) default_base_speed None None]
            \<or> b = best_path_hop_count s \<and> f = final_path s \<and> q = packet_queue s)
         \<and> (stop \<longleftrightarrow> 5 \<le> length (all_discovered_paths_to_dest s) + 1 \<or> b \<le> 2)"
proof (cases "enat (length pth - 1) < best_path_hop_count s")
  case True
  let ?s1 = "s\<lparr>all_discovered_paths_to_dest := all_discovered_paths_to_dest s @ [pth],
     best_path_hop_count := enat (length pth - 1), final_path := pth\<rparr>"
  from True assms obtain s2 where s2: "send_rrep_back ?s1 pth = Inr s2"
    and s': "s' = (if stop then s2\<lparr>route_established := True\<rparr> else s2)"
    and st: "stop \<longleftrightarrow> 5 \<le> length (all_discovered_paths_to_dest s2) \<or> best_path_hop_count s2 \<le> 2"
    by (auto simp: rreq_at_destination_def Let_def split: sum.splits if_splits)
  from send_rrep_back_shape[OF s2] s' st True show ?thesis
    apply (intro exI[of _ "packet_queue s @ [new_packet (packet_counter s) RREP (rev pth) default_base_speed None None]"]
         exI[of _ "packet_counter s + 1"] exI[of _ "enat (length pth - 1)"] exI[of _ pth])
    by (auto)
next
  case False
  let ?s1 = "s\<lparr>all_discovered_paths_to_dest := all_discovered_paths_to_dest s @ [pth]\<rparr>"
  from False assms have s': "s' = (if stop then ?s1\<lparr>route_established := True\<rparr> else ?s1)"
    and st: "stop \<longleftrightarrow> 5 \<le> length (all_discovered_paths_to_dest ?s1) \<or> best_path_hop_count ?s1 \<le> 2"
    by (auto simp: rreq_at_destination_def Let_def split: sum.splits if_splits)
  then show ?thesis
    apply (intro exI[of _ "packet_queue s"]
         exI[of _ "packet_counter s"] exI[of _ "best_path_hop_count s"] exI[of _ "final_path s"])
    by auto
qed

lemma process_packet_completion_cases [consumes 1, case_names forward dest_stop dest_forward rrep_source rrep_other data_dest data_other rerr_source rerr_other]:
  assumes "process_packet_completion s p = Inr s'"
  obtains
    "path p \<noteq> []" "packet_type p = RREQ" "Some (last (path p)) \<noteq> destination s"
      "forward_to_neighbors s (last (path p)) (path p) = Inr s'"
  | "path p \<noteq> []" "packet_type p = RREQ" "Some (last (path p)) = destination s"
      "rreq_at_destination s (path p) = Inr (s', True)"
  | s2 where "path p \<noteq> []" "packet_type p = RREQ" "Some (last (path p)) = destination s"
      "rreq_at_destination s (path p) = Inr (s2, False)"
      "forward_to_neighbors s2 (last (path p)) (path p) = Inr s'"
  | "path p \<noteq> []" "packet_type p = RREP" "Some (last (path p)) = source s"
      "send_data_packet s = Inr s'"
  | "path p \<noteq> []" "packet_type p = RREP" "Some (last (path p)) \<noteq> source s" "s' = s"
  | "path p \<noteq> []" "packet_type p = DATA" "Some (last (path p)) = destination s"
      "s' = s\<lparr>simulation_complete := True, simulation_running := False\<rparr>"
  | "path p \<noteq> []" "packet_type p = DATA" "Some (last (path p)) \<noteq> destination s" "s' = s"
  | "path p \<noteq> []" "packet_type p = RERR" "Some (last (path p)) = source s"
      "start_rreq_flooding s = Inr s'"
  | "path p \<noteq> []" "packet_type p = RERR" "Some (last (path p)) \<noteq> source s" "s' = s"
proof (cases "packet_type p")
  case RREQ
  with assms that(1,2,3) show ?thesis
    by (auto simp: process_packet_completion_def Let_def split: if_splits sum.splits prod.splits)
next
  case RREP
  with assms that(4,5) show ?thesis
    by (auto simp: process_packet_completion_def Let_def split: if_splits)
next
  case DATA
  with assms that(6,7) show ?thesis
    by (auto simp: process_packet_completion_def Let_def split: if_splits)
next
  case RERR
  with assms that(8,9) show ?thesis
    by (auto simp: process_packet_completion_def Let_def split: if_splits)
qed

subsection \<open>What packet completion leaves unchanged\<close>

lemma process_packet_completion_frame:
  assumes "process_packet_completion s p = Inr s'"
  shows "active_packets s' = active_packets s \<and> source s' = source s
       \<and> destination s' = destination s \<and> animation_speed s' = animation_speed s
       \<and> mobility_enabled s' = mobility_enabled s
       \<and> map neighbors (nodes s') = map neighbors (nodes s)
       \<and> map is_moving (nodes s') = map is_moving (nodes s)"
  using assms
proof (cases rule: process_packet_completion_cases)
  case forward
  from forward_to_neighbors_shape[OF forward(4)] show ?thesis by auto
next
  case dest_stop
  from rreq_at_destination_shape[OF dest_stop(4)] show ?thesis by auto
next
  case (dest_forward s2)
  from rreq_at_destination_shape[OF dest_forward(4)] forward_to_neighbors_shape[OF dest_forward(5)]
  show ?thesis by auto
next
  case rrep_source
  from send_data_packet_shape[OF rrep_source(4)] show ?thesis by auto
next
  case rerr_source
  from start_rreq_flooding_shape[OF rerr_source(4)] show ?thesis by auto
qed simp_all

lemma process_packet_completion_best:
  assumes "process_packet_completion s p = Inr s'"
  shows "best_path_hop_count s' < best_path_hop_count s
       \<or> (best_path_hop_count s' = best_path_hop_count s \<and> final_path s' = final_path s)"
  using assms
proof (cases rule: process_packet_completion_cases)
  case forward
  from forward_to_neighbors_shape[OF forward(4)] show ?thesis by auto
next
  case dest_stop
  from rreq_at_destination_shape[OF dest_stop(4)] show ?thesis by auto
next
  case (dest_forward s2)
  from rreq_at_destination_shape[OF dest_forward(4)] forward_to_neighbors_shape[OF dest_forward(5)]
  show ?thesis by auto
next
  case rrep_source
  from send_data_packet_shape[OF rrep_source(4)] show ?thesis by auto
next
  case rerr_source
  from start_rreq_flooding_shape[OF rerr_source(4)] show ?thesis by auto
qed simp_all

lemma process_packet_completion_final_path:
  assumes "process_packet_completion s p = Inr s'"
  shows "final_path s' = final_path s
       \<or> (final_path s' = path p \<and> 2 \<le> length (path p) \<and> packet_type p = RREQ
           \<and> Some (last (path p)) = destination s)"
  using assms
proof (cases rule: process_packet_completion_cases)
  case forward
  from forward_to_neighbors_shape[OF forward(4)] show ?thesis by auto
next
  case dest_stop
  from rreq_at_destination_shape[OF dest_stop(4)] dest_stop(2,3) show ?thesis by auto
next
  case (dest_forward s2)
  from rreq_at_destination_shape[OF dest_forward(4)] forward_to_neighbors_shape[OF dest_forward(5)]
    dest_forward(2,3)
  show ?thesis by auto
next
  case rrep_source
  from send_data_packet_shape[OF rrep_source(4)] show ?thesis by auto
next
  case rerr_source
  from start_rreq_flooding_shape[OF rerr_source(4)] show ?thesis by auto
qed simp_all

lemma process_packet_completion_flags:
  assumes "process_packet_completion s p = Inr s'"
  shows "(simulation_complete s' = simulation_complete s \<and> simulation_running s' = simulation_running s)
       \<or> (simulation_complete s' \<and> \<not> simulation_running s' \<and> packet_type p = DATA
           \<and> Some (last (path p)) = destination s)"
  using assms
proof (cases rule: process_packet_completion_cases)
  case forward
  from forward_to_neighbors_shape[OF forward(4)] show ?thesis by auto
next
  case dest_stop
  from rreq_at_destination_shape[OF dest_stop(4)] show ?thesis by auto
next
  case (dest_forward s2)
  from rreq_at_destination_shape[OF dest_forward(4)] forward_to_neighbors_shape[OF dest_forward(5)]
  show ?thesis by auto
next
  case rrep_source
  from send_data_packet_shape[OF rrep_source(4)] show ?thesis by auto
next
  case rerr_source
  from start_rreq_flooding_shape[OF rerr_source(4)] show ?thesis by auto
qed simp_all

subsection \<open>The tick driver\<close>

lemma complete_packets_Cons:
  assumes "complete_packets (p # ps) s = Inr s'"
  obtains s1 where
    "process_packet_completion (s\<lparr>active_packets := remove1 p (active_packets s)\<rparr>) p = Inr s1"
    "complete_packets ps s1 = Inr s'"
  using assms by (auto split: sum.splits)

lemma complete_packets_active_length:
  "complete_packets ps s = Inr s' \<Longrightarrow> length (active_packets s') \<le> length (active_packets s)"
proof (induction ps arbitrary: s)
  case Nil
  then show ?case by simp
next
  case (Cons p ps)
  from Cons.prems obtain s1 where
    s1: "process_packet_completion (s\<lparr>active_packets := remove1 p (active_packets s)\<rparr>) p = Inr s1"
    and rest: "complete_packets ps s1 = Inr s'"
    by (rule complete_packets_Cons)
  have "length (active_packets s1) \<le> length (active_packets s)"
    using process_packet_completion_frame[OF s1] by (simp add: length_remove1)
  with Cons.IH[OF rest] show ?case by simp
qed

lemma complete_packets_frame:
  "complete_packets ps s = Inr s' \<Longrightarrow>
     source s' = source s \<and> destination s' = destination s
     \<and> animation_speed s' = animation_speed s \<and> mobility_enabled s' = mobility_enabled s
     \<and> map neighbors (nodes s') = map neighbors (nodes s)
     \<and> map is_moving (nodes s') = map is_moving (nodes s)"
proof (induction ps arbitrary: s)
  case Nil
  then show ?case by simp
next
  case (Cons p ps)
  from Cons.prems obtain s1 where
    s1: "process_packet_completion (s\<lparr>active_packets := remove1 p (active_packets s)\<rparr>) p = Inr s1"
    and rest: "complete_packets ps s1 = Inr s'"
    by (rule complete_packets_Cons)
  from process_packet_completion_frame[OF s1] Cons.IH[OF rest] show ?case by simp
qed

lemma complete_packets_best:
  "complete_packets ps s = Inr s' \<Longrightarrow>
     best_path_hop_count s' < best_path_hop_count s
     \<or> (best_path_hop_count s' = best_path_hop_count s \<and> final_path s' = final_path s)"
proof (induction ps arbitrary: s)
  case Nil
  then show ?case by simp
next
  case (Cons p ps)
  from Cons.prems obtain s1 where
    s1: "process_packet_completion (s\<lparr>active_packets := remove1 p (active_packets s)\<rparr>) p = Inr s1"
    and rest: "complete_packets ps s1 = Inr s'"
    by (rule complete_packets_Cons)
  from process_packet_completion_best[OF s1] Cons.IH[OF rest] show ?case by auto
qed

lemma complete_packets_final_path:
  "complete_packets ps s = Inr s' \<Longrightarrow>
     final_path s' = final_path s \<or> 2 \<le> length (final_path s')"
proof (induction ps arbitrary: s)
  case Nil
  then show ?case by simp
next
  case (Cons p ps)
  from Cons.prems obtain s1 where
    s1: "process_packet_completion (s\<lparr>active_packets := remove1 p (active_packets s)\<rparr>) p = Inr s1"
    and rest: "complete_packets ps s1 = Inr s'"
    by (rule complete_packets_Cons)
  from process_packet_completion_final_path[OF s1] Cons.IH[OF rest] show ?case by auto
qed

lemma complete_packets_flags:
  "complete_packets ps s = Inr s' \<Longrightarrow>
     (simulation_complete s' = simulation_complete s \<and> simulation_running s' = simulation_running s)
     \<or> (simulation_complete s' \<and> \<not> simulation_running s'
         \<and> (\<exists>p \<in> set ps. packet_type p = DATA \<and> Some (last (path p)) = destination s))"
proof (induction ps arbitrary: s)
  case Nil
  then show ?case by simp
next
  case (Cons p ps)
  from Cons.prems obtain s1 where
    s1: "process_packet_completion (s\<lparr>active_packets := remove1 p (active_packets s)\<rparr>) p = Inr s1"
    and rest: "complete_packets ps s1 = Inr s'"
    by (rule complete_packets_Cons)
  have d: "destination s1 = destination s"
    using process_packet_completion_frame[OF s1] by simp
  from process_packet_completion_flags[OF s1]
  consider (same) "simulation_complete s1 = simulation_complete s" "simulation_running s1 = simulation_running s"
    | (data) "simulation_complete s1" "\<not> simulation_running s1" "packet_type p = DATA"
        "Some (last (path p)) = destination s"
    by auto
  then show ?case
  proof cases
    case same
    with Cons.IH[OF rest] d show ?thesis by auto
  next
    case data
    with Cons.IH[OF rest] d show ?thesis by auto
  qed
qed

lemma refill_active_length:
  "length act \<le> 5 \<Longrightarrow> length (snd (refill q act)) \<le> 5"
  by (induction q act rule: refill.induct) auto

text \<open>The tick up to the refill, in terms of its three stages.\<close>

lemma update_drain_stages:
  assumes "update_drain g dt s = Inr s'"
  obtains s3 where
    "complete_packets
       (map fst (filter snd (map (\<lambda>p. AnimatedPacket_update p dt (animation_speed s)) (active_packets s))))
       ((if mobility_enabled s then s\<lparr>nodes := move_nodes g (nodes s)\<rparr> else s)
          \<lparr>active_packets := map fst (map (\<lambda>p. AnimatedPacket_update p dt (animation_speed s)) (active_packets s))\<rparr>)
       = Inr s3"
    "s' = s3\<lparr>packet_queue := fst (refill (packet_queue s3) (active_packets s3)),
              active_packets := snd (refill (packet_queue s3) (active_packets s3))\<rparr>"
proof -
  from assms show ?thesis
    by (cases "mobility_enabled s")
      (auto simp: update_drain_def Let_def split_beta split: sum.splits intro!: that)
qed

subsection \<open>The active set\<close>

lemma update_finish_frame:
  assumes "update_finish s = Inr s'"
  shows "active_packets s' = active_packets s \<and> final_path s' = final_path s
       \<and> best_path_hop_count s' = best_path_hop_count s \<and> nodes s' = nodes s
       \<and> source s' = source s \<and> destination s' = destination s
       \<and> discovered_paths s' = discovered_paths s"
  using assms by (auto simp: update_finish_def split: if_splits dest!: send_data_packet_shape)

lemma update_drain_active_length:
  assumes "length (active_packets s) \<le> 5" "update_drain g dt s = Inr s'"
  shows "length (active_packets s') \<le> 5"
  using assms(2)
proof (rule update_drain_stages)
  fix s3
  assume c: "complete_packets
       (map fst (filter snd (map (\<lambda>p. AnimatedPacket_update p dt (animation_speed s)) (active_packets s))))
       ((if mobility_enabled s then s\<lparr>nodes := move_nodes g (nodes s)\<rparr> else s)
          \<lparr>active_packets := map fst (map (\<lambda>p. AnimatedPacket_update p dt (animation_speed s)) (active_packets s))\<rparr>)
       = Inr s3"
    and s': "s' = s3\<lparr>packet_queue := fst (refill (packet_queue s3) (active_packets s3)),
              active_packets := snd (refill (packet_queue s3) (active_packets s3))\<rparr>"
  from complete_packets_active_length[OF c] assms(1) have "length (active_packets s3) \<le> 5"
    by simp
  with s' show ?thesis by (simp add: refill_active_length)
qed

lemma AODVSimulator_update_active_length:
  assumes "length (active_packets s) \<le> 5" "AODVSimulator_update g dt s = Inr s'"
  shows "length (active_packets s') \<le> 5"
proof (cases "simulation_running s")
  case False
  with assms show ?thesis by (simp add: AODVSimulator_update_def)
next
  case True
  with assms(2) obtain m where m: "update_drain g dt s = Inr m" and f: "update_finish m = Inr s'"
    by (auto simp: AODVSimulator_update_def split: sum.splits)
  from update_drain_active_length[OF assms(1) m] update_finish_frame[OF f] show ?thesis by simp
qed

lemma start_simulation_active:
  assumes "start_simulation s = Inr s'"
  shows "active_packets s' = active_packets s \<or> active_packets s' = []"
proof (cases "source s = None \<or> destination s = None")
  case True
  with assms show ?thesis by (simp add: start_simulation_def)
next
  case False
  with assms have "start_rreq_flooding ((reset_simulation s)\<lparr>simulation_running := True\<rparr>) = Inr s'"
    by (simp add: start_simulation_def)
  from start_rreq_flooding_shape[OF this] show ?thesis
    by (auto simp: reset_simulation_def)
qed

lemma exec_active_length:
  assumes "length (active_packets s) \<le> 5" "exec c s = Inr s'"
  shows "length (active_packets s') \<le> 5"
proof (cases c)
  case (Tick g dt)
  with assms AODVSimulator_update_active_length show ?thesis by auto
next
  case RunSim
  with assms start_simulation_active[of s s'] show ?thesis by (auto split: if_splits)
next
  case (SimRerr r)
  with assms show ?thesis by (auto simp: simulate_route_error_def Let_def)
qed (use assms in \<open>auto simp: set_animation_speed_def toggle_mobility_def Let_def reset_simulation_def\<close>)

lemma reachable_active_length: "reachable s \<Longrightarrow> length (active_packets s) \<le> 5"
proof (induction rule: reachable.induct)
  case (reachable_init adj)
  then show ?case by (simp add: init_simulator_def)
next
  case (reachable_step s c s')
  then show ?case using exec_active_length by blast
qed

lemma reachable_exec_all:
  "reachable s \<Longrightarrow> commands_ok s cs \<Longrightarrow> exec_all cs s = Inr s' \<Longrightarrow> reachable s'"
proof (induction cs arbitrary: s)
  case Nil
  then show ?case by simp
next
  case (Cons c cs)
  from Cons.prems(3) obtain s1 where s1: "exec c s = Inr s1" and rest: "exec_all cs s1 = Inr s'"
    by (auto split: sum.splits)
  from Cons.prems(2) s1 have ok: "command_ok s c" "commands_ok s1 cs" by auto
  from reachable_step[OF Cons.prems(1) ok(1) s1] have "reachable s1" .
  from Cons.IH[OF this ok(2) rest] show ?case .
qed

text \<open>C7. In every state the driver can reach, at most five packets are active, and a
  tick from such a state, which first takes the completed packets out of the active
  list and then refills it from the queue only while it holds fewer than five packets,
  again leaves at most five.\<close>

theorem active_packets_at_most_five:
  assumes "reachable s"
  shows "length (active_packets s) \<le> 5
       \<and> (\<forall>g dt s'. AODVSimulator_update g dt s = Inr s' \<longrightarrow> length (active_packets s') \<le> 5)"
  using reachable_active_length[OF assms] AODVSimulator_update_active_length by blast

theorem active_packets_at_most_five_witness:
  "case exec_all star_commands (init_simulator star_adj) of
     Inl e \<Rightarrow> False
   | Inr s \<Rightarrow> reachable s \<and> length (active_packets s) \<le> 5 \<and> length (packet_queue s) = 6
       \<and> (case AODVSimulator_update nobody_in_range (double_of_nat 2) s of
             Inl e \<Rightarrow> False
           | Inr s' \<Rightarrow> length (active_packets s') \<le> 5 \<and> length (packet_queue s') = 1)"
proof -
  have run: "\<not> isl (exec_all star_commands (init_simulator star_adj))"
    by code_simp
  then obtain s where s: "exec_all star_commands (init_simulator star_adj) = Inr s"
    by (cases "exec_all star_commands (init_simulator star_adj)") auto
  have "adjacency_ok star_adj"
    by code_simp
  then have r0: "reachable (init_simulator star_adj)"
    by (rule reachable_init)
  have ok: "commands_ok (init_simulator star_adj) star_commands"
    by code_simp
  have r: "reachable s"
    using reachable_exec_all[OF r0 ok s] .
  have tick: "case exec_all star_commands (init_simulator star_adj) of
     Inl e \<Rightarrow> False
   | Inr s \<Rightarrow> length (packet_queue s) = 6 \<and> (case AODVSimulator_update nobody_in_range (double_of_nat 2) s of
             Inl e \<Rightarrow> False
           | Inr s' \<Rightarrow> length (packet_queue s') = 1)"
    by code_simp
  from active_packets_at_most_five[OF r] r tick s show ?thesis
    by (auto split: sum.splits)
qed

subsection \<open>One tick\<close>

lemma update_drain_best:
  assumes "update_drain g dt s = Inr m"
  shows "best_path_hop_count m < best_path_hop_count s
       \<or> (best_path_hop_count m = best_path_hop_count s \<and> final_path m = final_path s)"
  using assms
proof (rule update_drain_stages)
  fix s3
  assume c: "complete_packets
       (map fst (filter snd (map (\<lambda>p. AnimatedPacket_update p dt (animation_speed s)) (active_packets s))))
       ((if mobility_enabled s then s\<lparr>nodes := move_nodes g (nodes s)\<rparr> else s)
          \<lparr>active_packets := map fst (map (\<lambda>p. AnimatedPacket_update p dt (animation_speed s)) (active_packets s))\<rparr>)
       = Inr s3"
    and m: "m = s3\<lparr>packet_queue := fst (refill (packet_queue s3) (active_packets s3)),
              active_packets := snd (refill (packet_queue s3) (active_packets s3))\<rparr>"
  from complete_packets_best[OF c] m show ?thesis by (auto split: if_splits)
qed

lemma update_drain_final_path:
  assumes "update_drain g dt s = Inr m"
  shows "final_path m = final_path s \<or> 2 \<le> length (final_path m)"
  using assms
proof (rule update_drain_stages)
  fix s3
  assume c: "complete_packets
       (map fst (filter snd (map (\<lambda>p. AnimatedPacket_update p dt (animation_speed s)) (active_packets s))))
       ((if mobility_enabled s then s\<lparr>nodes := move_nodes g (nodes s)\<rparr> else s)
          \<lparr>active_packets := map fst (map (\<lambda>p. AnimatedPacket_update p dt (animation_speed s)) (active_packets s))\<rparr>)
       = Inr s3"
    and m: "m = s3\<lparr>packet_queue := fst (refill (packet_queue s3) (active_packets s3)),
              active_packets := snd (refill (packet_queue s3) (active_packets s3))\<rparr>"
  from complete_packets_final_path[OF c] m show ?thesis by (auto split: if_splits)
qed

lemma update_drain_flags:
  assumes "update_drain g dt s = Inr m"
  shows "(simulation_complete m = simulation_complete s \<and> simulation_running m = simulation_running s)
       \<or> (simulation_complete m \<and> \<not> simulation_running m
           \<and> (\<exists>p \<in> set (active_packets s). packet_type p = DATA
                 \<and> Some (last (path p)) = destination s
                 \<and> snd (AnimatedPacket_update p dt (animation_speed s))))"
  using assms
proof (rule update_drain_stages)
  fix s3
  let ?ups = "map (\<lambda>p. AnimatedPacket_update p dt (animation_speed s)) (active_packets s)"
  let ?s2 = "(if mobility_enabled s then s\<lparr>nodes := move_nodes g (nodes s)\<rparr> else s)
          \<lparr>active_packets := map fst ?ups\<rparr>"
  assume c: "complete_packets (map fst (filter snd ?ups)) ?s2 = Inr s3"
    and m: "m = s3\<lparr>packet_queue := fst (refill (packet_queue s3) (active_packets s3)),
              active_packets := snd (refill (packet_queue s3) (active_packets s3))\<rparr>"
  have s2: "simulation_complete ?s2 = simulation_complete s" "simulation_running ?s2 = simulation_running s"
    "destination ?s2 = destination s"
    by simp_all
  from complete_packets_flags[OF c]
  consider "simulation_complete s3 = simulation_complete s" "simulation_running s3 = simulation_running s"
    | q where "simulation_complete s3" "\<not> simulation_running s3" "q \<in> set (map fst (filter snd ?ups))"
        "packet_type q = DATA" "Some (last (path q)) = destination s"
    unfolding s2 by blast
  then show ?thesis
  proof cases
    case 1
    with m show ?thesis by simp
  next
    case 2
    from 2(3) obtain p where p: "p \<in> set (active_packets s)"
      "snd (AnimatedPacket_update p dt (animation_speed s))"
      "q = fst (AnimatedPacket_update p dt (animation_speed s))"
      by auto
    with 2(4,5) have "packet_type p = DATA" "Some (last (path p)) = destination s"
      by (simp_all add: update_path update_packet_type)
    with p 2(1,2) m show ?thesis by auto
  qed
qed

lemma AODVSimulator_update_stages:
  assumes "AODVSimulator_update g dt s = Inr s'" "simulation_running s"
  obtains m where "update_drain g dt s = Inr m" "update_finish m = Inr s'"
  using assms by (auto simp: AODVSimulator_update_def split: sum.splits)

lemma AODVSimulator_update_best:
  assumes "AODVSimulator_update g dt s = Inr s'"
  shows "best_path_hop_count s' < best_path_hop_count s
       \<or> (best_path_hop_count s' = best_path_hop_count s \<and> final_path s' = final_path s)"
proof (cases "simulation_running s")
  case False
  with assms show ?thesis by (simp add: AODVSimulator_update_def)
next
  case True
  from assms True obtain m where m: "update_drain g dt s = Inr m" and f: "update_finish m = Inr s'"
    by (rule AODVSimulator_update_stages)
  from update_drain_best[OF m] update_finish_frame[OF f] show ?thesis by auto
qed

lemma start_simulation_fresh:
  assumes "start_simulation s = Inr s'" "source s \<noteq> None" "destination s \<noteq> None"
  shows "best_path_hop_count s' = \<infinity> \<and> final_path s' = []"
proof -
  from assms have "start_rreq_flooding ((reset_simulation s)\<lparr>simulation_running := True\<rparr>) = Inr s'"
    by (simp add: start_simulation_def)
  from start_rreq_flooding_shape[OF this] show ?thesis
    by (auto simp: reset_simulation_def)
qed

text \<open>C6. No command of the driver increases the best hop count. A command that begins a
  new session sets it to infinity (and empties the best path). Any other command
  either leaves the best hop count and the best path as they are or strictly decreases the
  best hop count: the best path is never replaced without a strict decrease.\<close>

theorem best_hop_count_never_increases:
  assumes "exec c s = Inr s'"
  shows "if session_reset c s
         then best_path_hop_count s' = \<infinity> \<and> final_path s' = []
         else best_path_hop_count s' < best_path_hop_count s
              \<or> (best_path_hop_count s' = best_path_hop_count s \<and> final_path s' = final_path s)"
proof (cases c)
  case (Tick g dt)
  with assms AODVSimulator_update_best[of g dt s s'] show ?thesis by simp
next
  case RunSim
  show ?thesis
  proof (cases "source s \<noteq> None \<and> destination s \<noteq> None")
    case True
    with RunSim assms start_simulation_fresh[of s s'] show ?thesis by simp
  next
    case False
    with RunSim assms show ?thesis by auto
  qed
next
  case (SimRerr r)
  with assms show ?thesis by (auto simp: simulate_route_error_def Let_def)
qed (use assms in \<open>auto simp: set_animation_speed_def toggle_mobility_def Let_def reset_simulation_def\<close>)

theorem best_hop_count_never_increases_witness:
  "case exec_all [ClickNode 0, ClickNode 1, RunSim, Tick nobody_in_range (double_of_nat 2)] (init_simulator island_adj) of
     Inl e \<Rightarrow> False
   | Inr s \<Rightarrow>
       (case exec (Tick nobody_in_range (double_of_nat 2)) s of
          Inl e \<Rightarrow> False
        | Inr s' \<Rightarrow> \<not> session_reset (Tick nobody_in_range (double_of_nat 2)) s
            \<and> best_path_hop_count s = \<infinity> \<and> best_path_hop_count s' = 1
            \<and> final_path s' = [0, 1]
            \<and> best_path_hop_count s' < best_path_hop_count s)"
proof -
  let ?run = "exec_all [ClickNode 0, ClickNode 1, RunSim, Tick nobody_in_range (double_of_nat 2)] (init_simulator island_adj)"
  have val: "case ?run of
     Inl e \<Rightarrow> False
   | Inr s \<Rightarrow>
       (case exec (Tick nobody_in_range (double_of_nat 2)) s of
          Inl e \<Rightarrow> False
        | Inr s' \<Rightarrow> best_path_hop_count s = \<infinity> \<and> best_path_hop_count s' = 1
            \<and> final_path s' = [0, 1] \<and> final_path s = [])"
    by code_simp
  then obtain s s' where s: "?run = Inr s" and s': "exec (Tick nobody_in_range (double_of_nat 2)) s = Inr s'"
    by (auto split: sum.splits)
  from best_hop_count_never_increases[OF s'] val s s' show ?thesis
    by auto
qed

text \<open>C9. With the source or the destination unset, \<^verbatim>\<open>start_simulation\<close> returns at once:
  the engine state is the one it was called in, and no exception is raised. The same
  holds of the "RUN SIM" command of the driver.\<close>

theorem start_simulation_unset_is_noop:
  assumes "source s = None \<or> destination s = None"
  shows "start_simulation s = Inr s \<and> exec RunSim s = Inr s"
  using assms by (auto simp: start_simulation_def)

theorem start_simulation_unset_is_noop_witness:
  "case exec (ClickNode 0) (init_simulator island_adj) of
     Inl e \<Rightarrow> False
   | Inr s \<Rightarrow> source s = Some 0 \<and> destination s = None
        \<and> start_simulation s = Inr s \<and> exec RunSim s = Inr s"
proof -
  have val: "case exec (ClickNode 0) (init_simulator island_adj) of
     Inl e \<Rightarrow> False | Inr s \<Rightarrow> source s = Some 0 \<and> destination s = None"
    by code_simp
  then obtain s where s: "exec (ClickNode 0) (init_simulator island_adj) = Inr s"
    by (auto split: sum.splits)
  with val have "source s = None \<or> destination s = None" by simp
  from start_simulation_unset_is_noop[OF this] val s show ?thesis by simp
qed

text \<open>C8. When the part of a tick that processes and refills leaves a running session with
  an empty active list, an empty queue and no best path, the tick ends with the session
  complete: \<^verbatim>\<open>simulation_running\<close> is false, \<^verbatim>\<open>simulation_complete\<close> is true, nothing
  else changes (the best path stays empty), and no exception is raised.\<close>

theorem drained_without_path_completes:
  assumes "simulation_running s" "update_drain g dt s = Inr m"
    and "active_packets m = []" "packet_queue m = []" "simulation_running m"
    and "final_path m = []"
  shows "AODVSimulator_update g dt s
           = Inr (m\<lparr>simulation_complete := True, simulation_running := False\<rparr>)"
  using assms by (simp add: AODVSimulator_update_def update_finish_def)

theorem drained_without_path_completes_witness:
  "case exec_all [ClickNode 0, ClickNode 2, RunSim, Tick nobody_in_range (double_of_nat 2)] (init_simulator island_adj) of
     Inl e \<Rightarrow> False
   | Inr s \<Rightarrow>
       (case update_drain nobody_in_range (double_of_nat 2) s of
          Inl e \<Rightarrow> False
        | Inr m \<Rightarrow> simulation_running s \<and> length (active_packets s) = 1
            \<and> active_packets m = [] \<and> packet_queue m = [] \<and> simulation_running m
            \<and> final_path m = []
            \<and> AODVSimulator_update nobody_in_range (double_of_nat 2) s
                 = Inr (m\<lparr>simulation_complete := True, simulation_running := False\<rparr>))"
proof -
  let ?run = "exec_all [ClickNode 0, ClickNode 2, RunSim, Tick nobody_in_range (double_of_nat 2)] (init_simulator island_adj)"
  have val: "case ?run of
     Inl e \<Rightarrow> False
   | Inr s \<Rightarrow>
       (case update_drain nobody_in_range (double_of_nat 2) s of
          Inl e \<Rightarrow> False
        | Inr m \<Rightarrow> simulation_running s \<and> length (active_packets s) = 1
            \<and> active_packets m = [] \<and> packet_queue m = [] \<and> simulation_running m
            \<and> final_path m = [])"
    by code_simp
  then obtain s m where s: "?run = Inr s" and m: "update_drain nobody_in_range (double_of_nat 2) s = Inr m"
    by (auto split: sum.splits)
  from val s m have h: "simulation_running s" "active_packets m = []" "packet_queue m = []"
    "simulation_running m" "final_path m = []" "length (active_packets s) = 1"
    by simp_all
  from drained_without_path_completes[OF h(1) m h(2) h(3) h(4) h(5)] s m h show ?thesis
    by simp
qed

subsection \<open>Completion by delivery\<close>

lemma AODVSimulator_update_completion:
  assumes "AODVSimulator_update g dt s = Inr s'" "final_path s \<noteq> []"
  shows "final_path s' \<noteq> []
       \<and> (simulation_complete s' \<longrightarrow> simulation_complete s \<or> data_delivered (Tick g dt) s)"
proof (cases "simulation_running s")
  case False
  with assms show ?thesis by (simp add: AODVSimulator_update_def)
next
  case True
  from assms(1) True obtain m where m: "update_drain g dt s = Inr m" and f: "update_finish m = Inr s'"
    by (rule AODVSimulator_update_stages)
  from update_drain_final_path[OF m] assms(2) have fm: "final_path m \<noteq> []" by auto
  with f have c: "simulation_complete s' = simulation_complete m" and fp: "final_path s' = final_path m"
    by (auto simp: update_finish_def split: if_splits dest!: send_data_packet_shape)
  from update_drain_flags[OF m] True c have
    "simulation_complete s' \<longrightarrow> simulation_complete s \<or> data_delivered (Tick g dt) s"
    by auto
  with fp fm show ?thesis by simp
qed

lemma simulate_route_error_shape:
  "\<exists>q c. simulate_route_error r s = s\<lparr>packet_queue := q, packet_counter := c\<rparr>"
proof (cases "final_path s = [] \<or> length (final_path s) < 3")
  case True
  have "s = s\<lparr>packet_queue := packet_queue s, packet_counter := packet_counter s\<rparr>" by simp
  with True show ?thesis unfolding simulate_route_error_def by (metis (full_types))
next
  case False
  then show ?thesis unfolding simulate_route_error_def Let_def by (simp only: if_False) blast
qed

lemma exec_completion:
  assumes "exec c s = Inr s'" "\<not> session_reset c s" "final_path s \<noteq> []"
  shows "final_path s' \<noteq> []
       \<and> (simulation_complete s' \<longrightarrow> simulation_complete s \<or> data_delivered c s)"
proof (cases c)
  case (Tick g dt)
  with assms AODVSimulator_update_completion[of g dt s s'] show ?thesis by simp
next
  case (SimRerr r)
  from simulate_route_error_shape[of r s] obtain q k where
    "simulate_route_error r s = s\<lparr>packet_queue := q, packet_counter := k\<rparr>" by blast
  with SimRerr assms show ?thesis by auto
qed (use assms in \<open>auto simp: set_animation_speed_def toggle_mobility_def Let_def split: if_splits\<close>)

lemma exec_all_completion:
  "exec_all cs s = Inr t \<Longrightarrow> within_session cs s \<Longrightarrow> final_path s \<noteq> [] \<Longrightarrow>
     simulation_complete t \<Longrightarrow> simulation_complete s \<or> delivered_in_run cs s"
proof (induction cs arbitrary: s)
  case Nil
  then show ?case by simp
next
  case (Cons c cs)
  from Cons.prems(1) obtain s1 where s1: "exec c s = Inr s1" and rest: "exec_all cs s1 = Inr t"
    by (auto split: sum.splits)
  from Cons.prems(2) s1 have nr: "\<not> session_reset c s" and ws: "within_session cs s1" by auto
  from exec_completion[OF s1 nr Cons.prems(3)] have fp: "final_path s1 \<noteq> []"
    and c1: "simulation_complete s1 \<longrightarrow> simulation_complete s \<or> data_delivered c s" by auto
  from Cons.IH[OF rest ws fp Cons.prems(4)] c1 s1 show ?case by auto
qed

lemma exec_final_path:
  assumes "exec c s = Inr s'" "final_path s = [] \<or> 2 \<le> length (final_path s)"
  shows "final_path s' = [] \<or> 2 \<le> length (final_path s')"
proof (cases c)
  case (Tick g dt)
  show ?thesis
  proof (cases "simulation_running s")
    case False
    with Tick assms show ?thesis by (simp add: AODVSimulator_update_def)
  next
    case True
    from assms(1) Tick have "AODVSimulator_update g dt s = Inr s'" by simp
    from this True obtain m where m: "update_drain g dt s = Inr m" and f: "update_finish m = Inr s'"
      by (rule AODVSimulator_update_stages)
    from update_drain_final_path[OF m] update_finish_frame[OF f] assms(2) show ?thesis by auto
  qed
next
  case RunSim
  show ?thesis
  proof (cases "source s \<noteq> None \<and> destination s \<noteq> None")
    case True
    with RunSim assms start_simulation_fresh[of s s'] show ?thesis by simp
  next
    case False
    with RunSim assms show ?thesis by auto
  qed
next
  case (SimRerr r)
  from simulate_route_error_shape[of r s] obtain q k where
    "simulate_route_error r s = s\<lparr>packet_queue := q, packet_counter := k\<rparr>" by blast
  with SimRerr assms show ?thesis by auto
qed (use assms in \<open>auto simp: set_animation_speed_def toggle_mobility_def Let_def reset_simulation_def split: if_splits\<close>)

lemma reachable_final_path:
  "reachable s \<Longrightarrow> final_path s = [] \<or> 2 \<le> length (final_path s)"
proof (induction rule: reachable.induct)
  case (reachable_init adj)
  then show ?case by (simp add: init_simulator_def)
next
  case (reachable_step s c s')
  then show ?case using exec_final_path by blast
qed

text \<open>C10. In a reachable state, when the part of a tick that processes and refills leaves a
  running session with an empty active list, an empty queue and a non-empty best path,
  the tick does not complete the session: it queues one new \<^verbatim>\<open>DATA\<close> packet along the
  best path, the session keeps running, and \<^verbatim>\<open>simulation_complete\<close> is what it was
  before the tick. From there on, as long as no command begins a new session, the session
  can only become complete in a tick in which a \<^verbatim>\<open>DATA\<close> packet completes at the
  destination.\<close>

theorem drained_with_path_sends_data:
  assumes "reachable s" "simulation_running s" "update_drain g dt s = Inr m"
    and "active_packets m = []" "packet_queue m = []" "simulation_running m"
    and "final_path m \<noteq> []"
  shows "\<exists>s'. AODVSimulator_update g dt s = Inr s'
          \<and> s' = m\<lparr>packet_queue := [new_packet (packet_counter m) DATA (final_path m) default_base_speed None None],
                    packet_counter := packet_counter m + 1\<rparr>
          \<and> simulation_running s' \<and> simulation_complete s' = simulation_complete s
          \<and> (\<forall>cs t. exec_all cs s' = Inr t \<longrightarrow> within_session cs s' \<longrightarrow> simulation_complete t
                \<longrightarrow> simulation_complete s \<or> delivered_in_run cs s')"
proof -
  let ?s' = "m\<lparr>packet_queue := [new_packet (packet_counter m) DATA (final_path m) default_base_speed None None],
                packet_counter := packet_counter m + 1\<rparr>"
  from reachable_final_path[OF assms(1)] update_drain_final_path[OF assms(3)] assms(7)
  have len: "2 \<le> length (final_path m)" by auto
  then have "send_data_packet m = Inr ?s'"
    using assms(5) by (simp add: send_data_packet_def Let_def)
  with assms have upd: "AODVSimulator_update g dt s = Inr ?s'"
    by (simp add: AODVSimulator_update_def update_finish_def)
  from update_drain_flags[OF assms(3)] assms(2,6)
  have c: "simulation_complete m = simulation_complete s" by auto
  have later: "simulation_complete s \<or> delivered_in_run cs ?s'"
    if "exec_all cs ?s' = Inr t" "within_session cs ?s'" "simulation_complete t" for cs t
    using exec_all_completion[OF that(1,2) _ that(3)] assms(7) c by simp
  from upd c assms(6) later show ?thesis by simp
qed

theorem drained_with_path_sends_data_witness:
  "case exec_all lost_destination_commands (init_simulator island_adj) of
     Inl e \<Rightarrow> False
   | Inr s \<Rightarrow> reachable s \<and> simulation_running s \<and>
       (case update_drain nobody_in_range (double_of_nat 2) s of
          Inl e \<Rightarrow> False
        | Inr m \<Rightarrow> active_packets m = [] \<and> packet_queue m = [] \<and> simulation_running m
            \<and> final_path m = [0, 1] \<and>
            (case AODVSimulator_update nobody_in_range (double_of_nat 2) s of
               Inl e \<Rightarrow> False
             | Inr s' \<Rightarrow>
                 packet_queue s' = [new_packet (packet_counter m) DATA [0, 1] default_base_speed None None]
                 \<and> simulation_running s' \<and> \<not> simulation_complete s'
                 \<and> (case exec_all redelivery_commands s' of
                       Inl e \<Rightarrow> False
                     | Inr t \<Rightarrow> within_session redelivery_commands s' \<and> simulation_complete t
                         \<and> delivered_in_run redelivery_commands s')))"
proof -
  let ?run = "exec_all lost_destination_commands (init_simulator island_adj)"
  have val: "case ?run of
     Inl e \<Rightarrow> False
   | Inr s \<Rightarrow> simulation_running s \<and> \<not> simulation_complete s \<and>
       (case update_drain nobody_in_range (double_of_nat 2) s of
          Inl e \<Rightarrow> False
        | Inr m \<Rightarrow> active_packets m = [] \<and> packet_queue m = [] \<and> simulation_running m
            \<and> final_path m = [0, 1] \<and>
            (case AODVSimulator_update nobody_in_range (double_of_nat 2) s of
               Inl e \<Rightarrow> False
             | Inr s' \<Rightarrow>
                 (case exec_all redelivery_commands s' of
                       Inl e \<Rightarrow> False
                     | Inr t \<Rightarrow> within_session redelivery_commands s' \<and> simulation_complete t)))"
    by code_simp
  then obtain s m s' t where s: "?run = Inr s"
    and m: "update_drain nobody_in_range (double_of_nat 2) s = Inr m"
    and s': "AODVSimulator_update nobody_in_range (double_of_nat 2) s = Inr s'"
    and t: "exec_all redelivery_commands s' = Inr t"
    by (auto split: sum.splits)
  from val s m s' t have h: "simulation_running s" "\<not> simulation_complete s"
    "active_packets m = []" "packet_queue m = []" "simulation_running m" "final_path m = [0, 1]"
    "within_session redelivery_commands s'" "simulation_complete t"
    by simp_all
  have "adjacency_ok island_adj" by code_simp
  then have r0: "reachable (init_simulator island_adj)" by (rule reachable_init)
  have "commands_ok (init_simulator island_adj) lost_destination_commands" by code_simp
  from reachable_exec_all[OF r0 this s] have r: "reachable s" .
  from h(6) have ne: "final_path m \<noteq> []" by simp
  from drained_with_path_sends_data[OF r h(1) m h(3) h(4) h(5) ne] s' t h
  have "packet_queue s' = [new_packet (packet_counter m) DATA [0, 1] default_base_speed None None]
      \<and> simulation_running s' \<and> \<not> simulation_complete s'
      \<and> delivered_in_run redelivery_commands s'"
    by auto
  with s m s' t h r show ?thesis by simp
qed

text \<open>C4, as stated, fails: a packet on the three-node path \<open>[0, 1, 2]\<close> whose progress
  reaches \<open>1.0\<close> steps to hop index \<open>1\<close> and resets its progress, an arrival at the
  intermediate node, and \<^verbatim>\<open>update\<close> returns \<^verbatim>\<open>False\<close>. (Base speed, time step and
  multiplier are all \<^verbatim>\<open>1.0\<close>, so the sum \<^verbatim>\<open>0.0 + 1.0 * 1.0 * 1.0\<close> is exactly \<^verbatim>\<open>1.0\<close>.)\<close>

theorem update_false_on_intermediate_arrival:
  "current_node_index (fst (AnimatedPacket_update
       (new_packet 7 RREQ [0, 1, 2] (double_of_nat 1) None None) (double_of_nat 1) (double_of_nat 1))) = 1
   \<and> progress (fst (AnimatedPacket_update
       (new_packet 7 RREQ [0, 1, 2] (double_of_nat 1) None None) (double_of_nat 1) (double_of_nat 1)))
       = double_of_nat 0
   \<and> \<not> completed (fst (AnimatedPacket_update
       (new_packet 7 RREQ [0, 1, 2] (double_of_nat 1) None None) (double_of_nat 1) (double_of_nat 1)))
   \<and> snd (AnimatedPacket_update
       (new_packet 7 RREQ [0, 1, 2] (double_of_nat 1) None None) (double_of_nat 1) (double_of_nat 1)) = False"
  by code_simp

text \<open>C4, amended. Take a packet in flight (any packet the constructor builds on a path of
  two or more nodes is) and any sequence of \<^verbatim>\<open>update\<close> calls, and let \<open>q\<close> be the packet
  after the sequence.
  \<^item> At most one call of the sequence returned \<^verbatim>\<open>True\<close>, and one did exactly if \<open>q\<close> is
    completed; the path never changes.
  \<^item> If \<open>q\<close> is completed, it stands at the last node with progress \<open>1.0\<close>, and a further
    call returns \<^verbatim>\<open>False\<close> and leaves it as it is.
  \<^item> If \<open>q\<close> is not completed, a further call replaces the progress by the float
    \<^verbatim>\<open>progress + (base_speed * speed_multiplier) * delta_time\<close>, each operation rounded as
    floats are. If that float is not \<^verbatim>\<open>>= 1.0\<close> nothing else changes and the call returns
    \<^verbatim>\<open>False\<close>. Otherwise the packet steps to the next hop index; the call returns \<^verbatim>\<open>True\<close>
    exactly if that hop is the last node of the path, in which case the packet is completed
    with progress \<open>1.0\<close>; at an intermediate node the progress is reset to \<open>0.0\<close> and the
    call returns \<^verbatim>\<open>False\<close>.\<close>

theorem update_true_only_on_completion:
  assumes "in_flight p"
  shows "length (filter id (snd (update_calls p cs))) \<le> 1
       \<and> (True \<in> set (snd (update_calls p cs)) \<longleftrightarrow> completed (fst (update_calls p cs)))
       \<and> path (fst (update_calls p cs)) = path p
       \<and> (let q = fst (update_calls p cs); u = AnimatedPacket_update q dt m;
               sum = double_add (progress q) (double_mul (double_mul (base_speed q) m) dt)
          in if completed q
             then progress q = double_of_nat 1 \<and> current_node_index q + 1 = length (path q)
                \<and> u = (q, False)
             else if \<not> double_ge sum (double_of_nat 1)
             then u = (q\<lparr>progress := sum\<rparr>, False)
             else current_node_index (fst u) = current_node_index q + 1
                \<and> snd u = (current_node_index q + 2 = length (path q))
                \<and> completed (fst u) = snd u
                \<and> progress (fst u) = (if snd u then double_of_nat 1 else double_of_nat 0))"
proof -
  let ?q = "fst (update_calls p cs)"
  let ?sum = "double_add (progress ?q) (double_mul (double_mul (base_speed ?q) m) dt)"
  from update_calls_in_flight[OF assms, of cs]
  have tr: "length (filter id (snd (update_calls p cs))) \<le> 1"
    "True \<in> set (snd (update_calls p cs)) \<longleftrightarrow> completed ?q"
    "in_flight ?q \<or> arrived ?q" "path ?q = path p"
    by simp_all
  have step: "if completed ?q
             then progress ?q = double_of_nat 1 \<and> current_node_index ?q + 1 = length (path ?q)
                \<and> AnimatedPacket_update ?q dt m = (?q, False)
             else if \<not> double_ge ?sum (double_of_nat 1)
             then AnimatedPacket_update ?q dt m = (?q\<lparr>progress := ?sum\<rparr>, False)
             else current_node_index (fst (AnimatedPacket_update ?q dt m)) = current_node_index ?q + 1
                \<and> snd (AnimatedPacket_update ?q dt m) = (current_node_index ?q + 2 = length (path ?q))
                \<and> completed (fst (AnimatedPacket_update ?q dt m)) = snd (AnimatedPacket_update ?q dt m)
                \<and> progress (fst (AnimatedPacket_update ?q dt m))
                    = (if snd (AnimatedPacket_update ?q dt m) then double_of_nat 1 else double_of_nat 0)"
    using tr(3)
    by (auto simp: AnimatedPacket_update_def Let_def in_flight_def arrived_def)
  from tr(1,2,4) step show ?thesis by (simp add: Let_def)
qed

text \<open>Two runs of the amended statement. On \<open>[0, 1, 2]\<close>, three calls with time step \<open>1.0\<close>
  take the packet to the intermediate node (progress \<open>0.8\<close>, then \<open>1.6\<close> and the step, then
  \<open>0.8\<close> again) and a fourth with time step \<open>2.0\<close> completes it. On \<open>[0, 1]\<close>, ten calls with
  time step \<open>0.125\<close> add the float \<open>0.1\<close> ten times: the progress is then
  \<open>9007199254740991 / 2 ^ 53\<close>, the float \<^verbatim>\<open>0.9999999999999999\<close>, which is not \<^verbatim>\<open>>= 1.0\<close>, so
  all ten calls return \<^verbatim>\<open>False\<close>; the eleventh completes the packet.\<close>

theorem update_true_only_on_completion_witness:
  "in_flight (new_packet 7 RREQ [0, 1, 2] default_base_speed None None)
   \<and> snd (update_calls (new_packet 7 RREQ [0, 1, 2] default_base_speed None None)
            (replicate 3 (double_of_nat 1, double_of_nat 1)))
       = [False, False, False]
   \<and> current_node_index (fst (update_calls (new_packet 7 RREQ [0, 1, 2] default_base_speed None None)
            (replicate 3 (double_of_nat 1, double_of_nat 1)))) = 1
   \<and> AnimatedPacket_update (fst (update_calls (new_packet 7 RREQ [0, 1, 2] default_base_speed None None)
            (replicate 3 (double_of_nat 1, double_of_nat 1)))) (double_of_nat 2) (double_of_nat 1)
       = ((new_packet 7 RREQ [0, 1, 2] default_base_speed None None)
            \<lparr>current_node_index := 2, progress := double_of_nat 1, completed := True\<rparr>, True)
   \<and> in_flight (new_packet 8 RREQ [0, 1] default_base_speed None None)
   \<and> update_calls (new_packet 8 RREQ [0, 1] default_base_speed None None)
            (replicate 10 (round_double 1 (- 3), double_of_nat 1))
       = ((new_packet 8 RREQ [0, 1] default_base_speed None None)
            \<lparr>progress := Finite 9007199254740991 (- 53)\<rparr>, replicate 10 False)
   \<and> AnimatedPacket_update (fst (update_calls (new_packet 8 RREQ [0, 1] default_base_speed None None)
            (replicate 10 (round_double 1 (- 3), double_of_nat 1)))) (round_double 1 (- 3)) (double_of_nat 1)
       = ((new_packet 8 RREQ [0, 1] default_base_speed None None)
            \<lparr>current_node_index := 1, progress := double_of_nat 1, completed := True\<rparr>, True)"
proof -
  let ?p = "new_packet 7 RREQ [0, 1, 2] default_base_speed None None"
  let ?r = "new_packet 8 RREQ [0, 1] default_base_speed None None"
  let ?cs = "replicate 3 (double_of_nat 1, double_of_nat 1)"
  let ?ds = "replicate 10 (round_double 1 (- 3), double_of_nat 1)"
  have flp: "in_flight ?p" and flr: "in_flight ?r"
    by (simp_all add: in_flight_def new_packet_def)
  have callsp: "update_calls ?p ?cs
      = (?p\<lparr>current_node_index := 1, progress := default_base_speed\<rparr>, [False, False, False])"
    by code_simp
  have lastp: "AnimatedPacket_update (?p\<lparr>current_node_index := 1, progress := default_base_speed\<rparr>)
        (double_of_nat 2) (double_of_nat 1)
      = (?p\<lparr>current_node_index := 2, progress := double_of_nat 1, completed := True\<rparr>, True)"
    by code_simp
  have callsr: "update_calls ?r ?ds
      = (?r\<lparr>progress := Finite 9007199254740991 (- 53)\<rparr>, replicate 10 False)"
    by code_simp
  have lastr: "AnimatedPacket_update (?r\<lparr>progress := Finite 9007199254740991 (- 53)\<rparr>)
        (round_double 1 (- 3)) (double_of_nat 1)
      = (?r\<lparr>current_node_index := 1, progress := double_of_nat 1, completed := True\<rparr>, True)"
    by code_simp
  note update_true_only_on_completion[OF flp, where cs = ?cs and dt = "double_of_nat 2"
      and m = "double_of_nat 1"]
    update_true_only_on_completion[OF flr, where cs = ?ds and dt = "round_double 1 (- 3)"
      and m = "double_of_nat 1"]
  with flp flr callsp lastp callsr lastr show ?thesis
    by simp
qed

subsection \<open>Topology\<close>

lemma topology_ok_cong:
  "map neighbors ns' = map neighbors ns \<Longrightarrow> topology_ok ns' = topology_ok ns"
  by (simp add: topology_ok_def)

lemma neighbors_setup_nodes [simp]: "map neighbors (setup_nodes adj) = adj"
  by (simp add: setup_nodes_def comp_def)

lemma topology_ok_setup_nodes: "adjacency_ok adj \<Longrightarrow> topology_ok (setup_nodes adj)"
  by (simp add: topology_ok_def)

lemma topology_ok_move_nodes:
  assumes "topology_ok ns"
  shows "topology_ok (move_nodes g ns)"
  using assms
  by (auto simp: topology_ok_def adjacency_ok_def move_nodes_def update_neighbors_def)

lemma topology_ok_neighbor:
  assumes "topology_ok ns" "i < length ns" "j \<in> set (neighbors (ns ! i))"
  shows "j < length ns \<and> j \<noteq> i"
  using assms by (auto simp: topology_ok_def adjacency_ok_def)

subsection \<open>The topology \<^verbatim>\<open>setup_nodes\<close> builds\<close>

lemma set_add_neighbor: "set (add_neighbor nbs nb) = insert nb (set nbs)"
  by (auto simp: add_neighbor_def)

lemma basic_links_row:
  "set (fold (\<lambda>j nbs. if i \<noteq> j \<and> in_range i j then add_neighbor nbs j else nbs) js acc)
     \<subseteq> set acc \<union> {j \<in> set js. j \<noteq> i}"
proof (induction js arbitrary: acc)
  case Nil
  then show ?case by simp
next
  case (Cons j js)
  show ?case
  proof (cases "i \<noteq> j \<and> in_range i j")
    case True
    with Cons.IH[of "add_neighbor acc j"] show ?thesis
      by (auto simp: set_add_neighbor)
  next
    case False
    with Cons.IH[of acc] show ?thesis by auto
  qed
qed

lemma adjacency_ok_basic_links: "adjacency_ok (basic_links in_range n)"
  unfolding adjacency_ok_def
proof (intro allI impI ballI)
  fix i x assume i: "i < length (basic_links in_range n)" and x: "x \<in> set (basic_links in_range n ! i)"
  from i have n: "i < n" by (simp add: basic_links_def)
  with x have "x \<in> set (fold (\<lambda>j nbs. if i \<noteq> j \<and> in_range i j then add_neighbor nbs j else nbs) [0..<n] [])"
    by (simp add: basic_links_def)
  with basic_links_row[of i in_range "[0..<n]" "[]"] have "x < n \<and> x \<noteq> i" by auto
  then show "x < length (basic_links in_range n) \<and> x \<noteq> i" by (simp add: basic_links_def)
qed

lemma adjacency_ok_extra_link:
  assumes "adjacency_ok adj" "i < length adj" "j < length adj"
  shows "adjacency_ok (extra_link extra i j adj) \<and> length (extra_link extra i j adj) = length adj"
proof (cases "i \<noteq> j \<and> extra i j")
  case False
  then have "extra_link extra i j adj = adj" unfolding extra_link_def by (rule if_not_P)
  with assms show ?thesis by simp
next
  case True
  let ?a1 = "adj[i := add_neighbor (adj ! i) j]"
  have a1: "adjacency_ok ?a1"
    unfolding adjacency_ok_def
  proof (intro allI impI ballI)
    fix k x assume k: "k < length ?a1" and x: "x \<in> set (?a1 ! k)"
    show "x < length ?a1 \<and> x \<noteq> k"
    proof (cases "k = i")
      case True
      with k x have "x = j \<or> x \<in> set (adj ! i)" by (simp add: set_add_neighbor)
      then have "x < length adj \<and> x \<noteq> i"
      proof
        assume "x = j"
        with assms(3) \<open>i \<noteq> j \<and> extra i j\<close> show ?thesis by simp
      next
        assume "x \<in> set (adj ! i)"
        with assms(1,2) show ?thesis unfolding adjacency_ok_def by blast
      qed
      with True show ?thesis by simp
    next
      case False
      with k x assms(1) show ?thesis by (auto simp: adjacency_ok_def)
    qed
  qed
  let ?a2 = "?a1[j := add_neighbor (?a1 ! j) i]"
  have a2: "adjacency_ok ?a2"
    unfolding adjacency_ok_def
  proof (intro allI impI ballI)
    fix k x assume k: "k < length ?a2" and x: "x \<in> set (?a2 ! k)"
    show "x < length ?a2 \<and> x \<noteq> k"
    proof (cases "k = j")
      case True
      with k x have "x = i \<or> x \<in> set (?a1 ! j)" by (simp add: set_add_neighbor)
      then have "x < length adj \<and> x \<noteq> j"
      proof
        assume "x = i"
        with assms(2) \<open>i \<noteq> j \<and> extra i j\<close> show ?thesis by simp
      next
        assume "x \<in> set (?a1 ! j)"
        moreover have "j < length ?a1" using assms(3) by simp
        ultimately have "x < length ?a1 \<and> x \<noteq> j" using a1 unfolding adjacency_ok_def by blast
        then show ?thesis by simp
      qed
      with True show ?thesis by simp
    next
      case False
      with k x a1 show ?thesis by (auto simp: adjacency_ok_def)
    qed
  qed
  from True a2 show ?thesis by (simp add: extra_link_def Let_def)
qed

lemma adjacency_ok_fold_extra_link:
  assumes "adjacency_ok adj" "i < length adj" "\<forall>j \<in> set js. j < length adj"
  shows "adjacency_ok (fold (extra_link extra i) js adj)
       \<and> length (fold (extra_link extra i) js adj) = length adj"
  using assms
proof (induction js arbitrary: adj)
  case Nil
  then show ?case by simp
next
  case (Cons j js)
  from Cons.prems have j: "j < length adj" by simp
  from adjacency_ok_extra_link[OF Cons.prems(1,2) j, of extra]
  have ok: "adjacency_ok (extra_link extra i j adj)"
    and len: "length (extra_link extra i j adj) = length adj" by simp_all
  from Cons.IH[OF ok] len Cons.prems show ?case by simp
qed

lemma adjacency_ok_fold_rows:
  assumes "adjacency_ok adj" "\<forall>i \<in> set is. i < length adj" "n \<le> length adj"
  shows "adjacency_ok (fold (\<lambda>i a. fold (extra_link extra i) [i + 1..<n] a) is adj)
       \<and> length (fold (\<lambda>i a. fold (extra_link extra i) [i + 1..<n] a) is adj) = length adj"
  using assms
proof (induction "is" arbitrary: adj)
  case Nil
  then show ?case by simp
next
  case (Cons i "is")
  from Cons.prems have i: "i < length adj" by simp
  from Cons.prems(3) have js: "\<forall>j \<in> set [i + 1..<n]. j < length adj" by simp
  from adjacency_ok_fold_extra_link[OF Cons.prems(1) i js, of extra]
  have ok: "adjacency_ok (fold (extra_link extra i) [i + 1..<n] adj)"
    and len: "length (fold (extra_link extra i) [i + 1..<n] adj) = length adj" by simp_all
  from Cons.IH[OF ok] len Cons.prems show ?case by simp
qed

lemma adjacency_ok_build_adjacency: "adjacency_ok (build_adjacency in_range extra n)"
proof -
  have len: "length (basic_links in_range n) = n" by (simp add: basic_links_def)
  from adjacency_ok_fold_rows[OF adjacency_ok_basic_links, of "[0..<n]" in_range n n extra] len
  show ?thesis by (simp add: build_adjacency_def extra_links_def)
qed

lemma reachable_built_topology:
  "reachable (init_simulator (build_adjacency in_range extra n))"
  by (rule reachable_init) (rule adjacency_ok_build_adjacency)

subsection \<open>Loop freedom\<close>

lemma loop_free_forward_rreq:
  assumes "distinct pth" "loop_free s"
  shows "loop_free (forward_rreq cur pth nb s)"
  using assms by (auto simp: forward_rreq_def Let_def loop_free_def new_packet_def)

lemma loop_free_fold_forward:
  assumes "distinct pth" "loop_free s"
  shows "loop_free (fold (forward_rreq cur pth) nbs s)"
  using assms(2)
  by (induction nbs arbitrary: s) (simp_all add: loop_free_forward_rreq[OF assms(1)])

lemma loop_free_seed_neighbor:
  assumes "nb \<noteq> src" "loop_free s"
  shows "loop_free (seed_neighbor src nb s)"
  using assms by (auto simp: seed_neighbor_def Let_def loop_free_def new_packet_def)

lemma loop_free_fold_seed:
  assumes "\<forall>nb \<in> set nbs. nb \<noteq> src" "loop_free s"
  shows "loop_free (fold (seed_neighbor src) nbs s)"
  using assms
  by (induction nbs arbitrary: s) (simp_all add: loop_free_seed_neighbor)

lemma loop_free_start_rreq_flooding:
  assumes "start_rreq_flooding s = Inr s'" "topology_ok (nodes s)" "loop_free s"
  shows "loop_free s'"
proof -
  let ?s1 = "s\<lparr>rreq_broadcast_id := packet_counter s, packet_counter := packet_counter s + 1\<rparr>"
  from assms(1) obtain src where src: "src < length (nodes s)"
    and s': "s' = fold (seed_neighbor src) (neighbors (nodes s ! src)) ?s1"
    by (auto simp: start_rreq_flooding_def Let_def split: option.splits if_splits)
  from topology_ok_neighbor[OF assms(2) src]
  have "\<forall>nb \<in> set (neighbors (nodes s ! src)). nb \<noteq> src" by blast
  moreover from assms(3) have "loop_free ?s1" by (simp add: loop_free_def)
  ultimately show ?thesis unfolding s' by (rule loop_free_fold_seed)
qed

lemma loop_free_send_data_packet:
  "send_data_packet s = Inr s' \<Longrightarrow> loop_free s \<Longrightarrow> loop_free s'"
  by (auto simp: loop_free_def new_packet_def dest!: send_data_packet_shape)

lemma loop_free_rreq_at_destination:
  assumes "rreq_at_destination s pth = Inr (s', stop)" "loop_free s"
  shows "loop_free s'"
proof -
  from rreq_at_destination_shape[OF assms(1)] obtain q c b f where
    s': "s' = s\<lparr>all_discovered_paths_to_dest := all_discovered_paths_to_dest s @ [pth],
            best_path_hop_count := b, final_path := f, packet_queue := q, packet_counter := c,
            route_established := (stop \<or> route_established s)\<rparr>"
    and q: "q = packet_queue s @ [new_packet (packet_counter s) RREP (rev pth) default_base_speed None None]
            \<or> q = packet_queue s"
    by blast
  from q assms(2) show ?thesis unfolding s' by (auto simp: loop_free_def new_packet_def)
qed

lemma loop_free_forward_to_neighbors:
  assumes "forward_to_neighbors s cur pth = Inr s'" "distinct pth" "loop_free s"
  shows "loop_free s'"
proof -
  from assms(1) have "s' = fold (forward_rreq cur pth) (neighbors (nodes s ! cur)) s"
    by (auto simp: forward_to_neighbors_def split: if_splits)
  with loop_free_fold_forward[OF assms(2,3)] show ?thesis by simp
qed

lemma loop_free_process_packet_completion:
  assumes "process_packet_completion s p = Inr s'" "topology_ok (nodes s)" "loop_free s"
    and "packet_type p = RREQ \<longrightarrow> distinct (path p)"
  shows "loop_free s'"
  using assms(1)
proof (cases rule: process_packet_completion_cases)
  case forward
  with assms loop_free_forward_to_neighbors show ?thesis by blast
next
  case dest_stop
  with assms loop_free_rreq_at_destination show ?thesis by blast
next
  case (dest_forward s2)
  from loop_free_rreq_at_destination[OF dest_forward(4) assms(3)] have "loop_free s2" .
  with dest_forward assms(4) loop_free_forward_to_neighbors show ?thesis by blast
next
  case rrep_source
  with assms loop_free_send_data_packet show ?thesis by blast
next
  case rerr_source
  with assms loop_free_start_rreq_flooding show ?thesis by blast
next
  case data_dest
  with assms(3) show ?thesis by (simp add: loop_free_def)
qed (use assms in simp_all)

lemma loop_free_complete_packets:
  "complete_packets ps s = Inr s' \<Longrightarrow> topology_ok (nodes s) \<Longrightarrow> loop_free s \<Longrightarrow>
     \<forall>p \<in> set ps. packet_type p = RREQ \<longrightarrow> distinct (path p) \<Longrightarrow> loop_free s'"
proof (induction ps arbitrary: s)
  case Nil
  then show ?case by simp
next
  case (Cons p ps)
  let ?s0 = "s\<lparr>active_packets := remove1 p (active_packets s)\<rparr>"
  from Cons.prems(1) obtain s1 where
    s1: "process_packet_completion ?s0 p = Inr s1"
    and rest: "complete_packets ps s1 = Inr s'"
    by (rule complete_packets_Cons)
  have lf0: "loop_free ?s0"
    using Cons.prems(3) set_remove1_subset[of p "active_packets s"] by (auto simp: loop_free_def)
  have t0: "topology_ok (nodes ?s0)" using Cons.prems(2) by simp
  from Cons.prems(4) have p: "packet_type p = RREQ \<longrightarrow> distinct (path p)" by simp
  from loop_free_process_packet_completion[OF s1 t0 lf0 p] have lf1: "loop_free s1" .
  from process_packet_completion_frame[OF s1] have "map neighbors (nodes s1) = map neighbors (nodes s)"
    by simp
  with Cons.prems(2) have t1: "topology_ok (nodes s1)" by (simp add: topology_ok_def)
  from Cons.IH[OF rest t1 lf1] Cons.prems(4) show ?case by simp
qed

lemma refill_set:
  "set (fst (refill q act)) \<union> set (snd (refill q act)) = set q \<union> set act"
  by (induction q act rule: refill.induct) auto

lemma update_drain_loop_free:
  assumes "update_drain g dt s = Inr m" "topology_ok (nodes s)" "loop_free s"
  shows "loop_free m \<and> topology_ok (nodes m)"
  using assms(1)
proof (rule update_drain_stages)
  fix s3
  let ?ups = "map (\<lambda>p. AnimatedPacket_update p dt (animation_speed s)) (active_packets s)"
  let ?s2 = "(if mobility_enabled s then s\<lparr>nodes := move_nodes g (nodes s)\<rparr> else s)
          \<lparr>active_packets := map fst ?ups\<rparr>"
  assume c: "complete_packets (map fst (filter snd ?ups)) ?s2 = Inr s3"
    and m: "m = s3\<lparr>packet_queue := fst (refill (packet_queue s3) (active_packets s3)),
              active_packets := snd (refill (packet_queue s3) (active_packets s3))\<rparr>"
  have t2: "topology_ok (nodes ?s2)"
    using assms(2) topology_ok_move_nodes by simp
  have upd: "packet_type q = RREQ \<longrightarrow> distinct (path q)" if "q \<in> set (map fst ?ups)" for q
  proof -
    from that obtain p where "p \<in> set (active_packets s)"
      "q = fst (AnimatedPacket_update p dt (animation_speed s))" by auto
    with assms(3) show ?thesis by (auto simp: loop_free_def update_path update_packet_type)
  qed
  have lf2: "loop_free ?s2"
    using assms(3) upd by (auto simp: loop_free_def)
  have "set (map fst (filter snd ?ups)) \<subseteq> set (map fst ?ups)" by auto
  with upd have cp: "\<forall>p \<in> set (map fst (filter snd ?ups)). packet_type p = RREQ \<longrightarrow> distinct (path p)"
    by blast
  from loop_free_complete_packets[OF c t2 lf2 cp] have lf3: "loop_free s3" .
  from complete_packets_frame[OF c] have "map neighbors (nodes s3) = map neighbors (nodes ?s2)"
    by simp
  with t2 have t3: "topology_ok (nodes s3)" by (simp add: topology_ok_def)
  from lf3 refill_set[of "packet_queue s3" "active_packets s3"] have "loop_free m"
    unfolding m loop_free_def by auto
  with t3 m show ?thesis by simp
qed

lemma update_loop_free:
  assumes "AODVSimulator_update g dt s = Inr s'" "topology_ok (nodes s)" "loop_free s"
  shows "loop_free s' \<and> topology_ok (nodes s')"
proof (cases "simulation_running s")
  case False
  with assms show ?thesis by (simp add: AODVSimulator_update_def)
next
  case True
  from assms(1) True obtain m where m: "update_drain g dt s = Inr m" and f: "update_finish m = Inr s'"
    by (rule AODVSimulator_update_stages)
  from update_drain_loop_free[OF m assms(2,3)] have lm: "loop_free m" "topology_ok (nodes m)"
    by simp_all
  from f lm(1) have "loop_free s'"
    by (auto simp: update_finish_def loop_free_def split: if_splits dest: loop_free_send_data_packet)
  with update_finish_frame[OF f] lm(2) show ?thesis by simp
qed

lemma loop_free_reset [simp]: "loop_free (reset_simulation s)"
  by (simp add: loop_free_def reset_simulation_def)

lemma topology_ok_reset [simp]: "topology_ok (nodes (reset_simulation s)) = topology_ok (nodes s)"
  by (simp add: reset_simulation_def topology_ok_def comp_def)

lemma exec_loop_free:
  assumes "exec c s = Inr s'" "command_ok s c" "topology_ok (nodes s)" "loop_free s"
  shows "loop_free s' \<and> topology_ok (nodes s')"
proof (cases c)
  case (Tick g dt)
  with assms update_loop_free[of g dt s s'] show ?thesis by simp
next
  case RunSim
  show ?thesis
  proof (cases "source s \<noteq> None \<and> destination s \<noteq> None")
    case True
    let ?s0 = "(reset_simulation s)\<lparr>simulation_running := True\<rparr>"
    from True RunSim assms(1) have fl: "start_rreq_flooding ?s0 = Inr s'"
      by (auto simp: start_simulation_def)
    have t0: "topology_ok (nodes ?s0)" using assms(3) by simp
    have "loop_free ?s0" by (simp add: loop_free_def reset_simulation_def)
    from loop_free_start_rreq_flooding[OF fl t0 this] have "loop_free s'" .
    moreover from start_rreq_flooding_shape[OF fl] t0 have "topology_ok (nodes s')"
      by (auto simp: topology_ok_def)
    ultimately show ?thesis by simp
  next
    case False
    with RunSim assms show ?thesis by auto
  qed
next
  case (SimRerr r)
  from assms(3,4) have "loop_free (simulate_route_error r s) \<and> topology_ok (nodes (simulate_route_error r s))"
    by (auto simp: simulate_route_error_def Let_def loop_free_def new_packet_def)
  with SimRerr assms(1) show ?thesis by auto
next
  case (ApplyNodes adj)
  with assms show ?thesis by (auto simp: loop_free_def topology_ok_setup_nodes)
next
  case (NewFormation adj)
  with assms show ?thesis by (auto simp: topology_ok_setup_nodes)
next
  case ToggleMobility
  with assms show ?thesis
    by (auto simp: toggle_mobility_def Let_def loop_free_def topology_ok_def comp_def)
next
  case Reset
  with assms show ?thesis by (auto simp: loop_free_def reset_simulation_def topology_ok_def comp_def)
qed (use assms in \<open>auto simp: set_animation_speed_def loop_free_def split: if_splits\<close>)

lemma reachable_loop_free: "reachable s \<Longrightarrow> loop_free s \<and> topology_ok (nodes s)"
proof (induction rule: reachable.induct)
  case (reachable_init adj)
  then show ?case by (simp add: init_simulator_def loop_free_def topology_ok_setup_nodes)
next
  case (reachable_step s c s')
  then show ?case using exec_loop_free by blast
qed

text \<open>C5. In every state the driver can reach, every \<^verbatim>\<open>RREQ\<close> packet, active or queued,
  and every path recorded in \<^verbatim>\<open>discovered_paths\<close> (each \<^verbatim>\<open>RREQ\<close> packet, seed or
  forwarded, is queued and its path recorded when it is created) contains no node twice.
  The forwarding step itself appends no node to a path that already contains it: for
  such a neighbour it leaves the state as it is.\<close>

theorem rreq_paths_loop_free:
  assumes "reachable s"
  shows "(\<forall>p \<in> set (active_packets s) \<union> set (packet_queue s).
            packet_type p = RREQ \<longrightarrow> distinct (path p))
       \<and> (\<forall>pth \<in> set (discovered_paths s). distinct pth)
       \<and> (\<forall>cur pth nb. nb \<in> set pth \<longrightarrow> forward_rreq cur pth nb s = s)"
  using reachable_loop_free[OF assms] by (simp add: loop_free_def forward_rreq_def)

theorem rreq_paths_loop_free_witness:
  "case exec_all line_commands (init_simulator line_adj) of
     Inl e \<Rightarrow> False
   | Inr s \<Rightarrow> reachable s
       \<and> map path (active_packets s) = [[0, 1, 2]] \<and> map packet_type (active_packets s) = [RREQ]
       \<and> discovered_paths s = [[0, 1], [0, 1, 2]]
       \<and> (\<forall>p \<in> set (active_packets s). distinct (path p))
       \<and> (\<forall>pth \<in> set (discovered_paths s). distinct pth)
       \<and> forward_rreq 2 [0, 1, 2] 1 s = s"
proof -
  let ?run = "exec_all line_commands (init_simulator line_adj)"
  have val: "case ?run of
     Inl e \<Rightarrow> False
   | Inr s \<Rightarrow> map path (active_packets s) = [[0, 1, 2]] \<and> map packet_type (active_packets s) = [RREQ]
       \<and> discovered_paths s = [[0, 1], [0, 1, 2]]"
    by code_simp
  then obtain s where s: "?run = Inr s" by (auto split: sum.splits)
  have "adjacency_ok line_adj" by code_simp
  then have r0: "reachable (init_simulator line_adj)" by (rule reachable_init)
  have "commands_ok (init_simulator line_adj) line_commands" by code_simp
  from reachable_exec_all[OF r0 this s] have r: "reachable s" .
  from val s have a: "map path (active_packets s) = [[0, 1, 2]]"
    "map packet_type (active_packets s) = [RREQ]" "discovered_paths s = [[0, 1], [0, 1, 2]]"
    by simp_all
  from rreq_paths_loop_free[OF r] a have
    "(\<forall>p \<in> set (active_packets s). distinct (path p))
       \<and> (\<forall>pth \<in> set (discovered_paths s). distinct pth)
       \<and> forward_rreq 2 [0, 1, 2] 1 s = s"
    by auto
  with s r a show ?thesis by simp
qed

subsection \<open>Forwarding marks its targets\<close>

lemma spawned_append:
  "packet_queue s' = packet_queue s @ new \<Longrightarrow> spawned s s' = new"
  by (simp add: spawned_def)

lemma queue_spawned:
  "take (length (packet_queue s)) (packet_queue s') = packet_queue s \<Longrightarrow>
     packet_queue s' = packet_queue s @ spawned s s'"
  unfolding spawned_def by (metis append_take_drop_id)

lemma forwarded_once_refl:
  assumes "packet_queue s' = packet_queue s @ new" "\<forall>q \<in> set new. packet_type q \<noteq> RREQ"
    and "source s' = source s" "rreq_broadcast_id s' = rreq_broadcast_id s" "nodes s' = nodes s"
  shows "forwarded_once s s'"
proof -
  from assms(2) have "filter (\<lambda>q. packet_type q = RREQ) new = []" by (simp add: filter_empty_conv)
  with assms show ?thesis by (simp add: forwarded_once_def spawned_append)
qed

lemma forwarded_once_trans:
  assumes a: "forwarded_once s s1" and b: "forwarded_once s1 s2"
  shows "forwarded_once s s2"
proof -
  let ?key = "(source s, rreq_broadcast_id s)"
  let ?f = "filter (\<lambda>q. packet_type q = RREQ)"
  from a have "take (length (packet_queue s)) (packet_queue s1) = packet_queue s"
    by (simp add: forwarded_once_def Let_def)
  then have q1: "packet_queue s1 = packet_queue s @ spawned s s1"
    by (rule queue_spawned)
  from b have "take (length (packet_queue s1)) (packet_queue s2) = packet_queue s1"
    by (simp add: forwarded_once_def Let_def)
  then have q2: "packet_queue s2 = packet_queue s1 @ spawned s1 s2"
    by (rule queue_spawned)
  from q1 q2 have q: "packet_queue s2 = packet_queue s @ (spawned s s1 @ spawned s1 s2)" by simp
  then have sp: "spawned s s2 = spawned s s1 @ spawned s1 s2" by (rule spawned_append)
  from a have k1: "source s1 = source s" "rreq_broadcast_id s1 = rreq_broadcast_id s"
    and n1: "map neighbors (nodes s1) = map neighbors (nodes s)"
    and d1: "distinct (map target (?f (spawned s s1)))"
    and t1: "\<forall>q \<in> set (?f (spawned s s1)). target q < length (nodes s) \<and> ?key \<notin> rreq_seen (nodes s ! target q)"
    and r1: "\<forall>n < length (nodes s). rreq_seen (nodes s1 ! n)
                 = rreq_seen (nodes s ! n) \<union> (if n \<in> target ` set (?f (spawned s s1)) then {?key} else {})"
    by (simp_all add: forwarded_once_def Let_def)
  from n1 have l1: "length (nodes s1) = length (nodes s)" by (metis length_map)
  from b k1 l1 have k2: "source s2 = source s" "rreq_broadcast_id s2 = rreq_broadcast_id s"
    and n2: "map neighbors (nodes s2) = map neighbors (nodes s1)"
    and d2: "distinct (map target (?f (spawned s1 s2)))"
    and t2: "\<forall>q \<in> set (?f (spawned s1 s2)). target q < length (nodes s) \<and> ?key \<notin> rreq_seen (nodes s1 ! target q)"
    and r2: "\<forall>n < length (nodes s). rreq_seen (nodes s2 ! n)
                 = rreq_seen (nodes s1 ! n) \<union> (if n \<in> target ` set (?f (spawned s1 s2)) then {?key} else {})"
    by (simp_all add: forwarded_once_def Let_def)
  have disj: "target ` set (?f (spawned s s1)) \<inter> target ` set (?f (spawned s1 s2)) = {}"
  proof (rule ccontr)
    assume "\<not> ?thesis"
    then obtain n where n: "n \<in> target ` set (?f (spawned s s1))" "n \<in> target ` set (?f (spawned s1 s2))"
      by blast
    from n(2) t2 have "n < length (nodes s)" "?key \<notin> rreq_seen (nodes s1 ! n)" by auto
    moreover from n(1) r1 \<open>n < length (nodes s)\<close> have "?key \<in> rreq_seen (nodes s1 ! n)" by simp
    ultimately show False by simp
  qed
  have d: "distinct (map target (?f (spawned s s2)))"
    unfolding sp using d1 d2 disj by simp
  have t: "\<forall>q \<in> set (?f (spawned s s2)). target q < length (nodes s) \<and> ?key \<notin> rreq_seen (nodes s ! target q)"
  proof
    fix q assume "q \<in> set (?f (spawned s s2))"
    then consider "q \<in> set (?f (spawned s s1))" | "q \<in> set (?f (spawned s1 s2))"
      unfolding sp by auto
    then show "target q < length (nodes s) \<and> ?key \<notin> rreq_seen (nodes s ! target q)"
    proof cases
      case 1
      with t1 show ?thesis by blast
    next
      case 2
      with t2 have "target q < length (nodes s)" "?key \<notin> rreq_seen (nodes s1 ! target q)" by auto
      with r1 show ?thesis by auto
    qed
  qed
  have r: "\<forall>n < length (nodes s). rreq_seen (nodes s2 ! n)
                 = rreq_seen (nodes s ! n) \<union> (if n \<in> target ` set (?f (spawned s s2)) then {?key} else {})"
    unfolding sp using r1 r2 by auto
  from q have tk: "take (length (packet_queue s)) (packet_queue s2) = packet_queue s" by simp
  from tk k2 n1 n2 d t r show ?thesis
    by (simp add: forwarded_once_def Let_def)
qed

lemma forwarded_once_forward_rreq:
  assumes "nb < length (nodes s)"
  shows "forwarded_once s (forward_rreq cur pth nb s)"
proof (cases "nb \<notin> set pth \<and> (source s, rreq_broadcast_id s) \<notin> rreq_seen (nodes s ! nb)")
  case False
  then have "forward_rreq cur pth nb s = s" by (auto simp: forward_rreq_def Let_def)
  then show ?thesis by (simp add: forwarded_once_refl[where new = "[]"])
next
  case True
  let ?key = "(source s, rreq_broadcast_id s)"
  let ?pkt = "new_packet (packet_counter s) RREQ (pth @ [nb]) default_base_speed (Some cur) (Some nb)"
  from True have eq: "forward_rreq cur pth nb s = s\<lparr>packet_queue := packet_queue s @ [?pkt],
                  packet_counter := packet_counter s + 1,
                  discovered_paths := discovered_paths s @ [pth @ [nb]],
                  nodes := mark_seen (nodes s) nb ?key\<rparr>"
    by (simp add: forward_rreq_def Let_def)
  have sp: "spawned s (forward_rreq cur pth nb s) = [?pkt]"
    unfolding eq by (simp add: spawned_def)
  have tg: "target ?pkt = nb" "packet_type ?pkt = RREQ"
    by (simp_all add: target_def new_packet_def)
  show ?thesis
    unfolding forwarded_once_def Let_def sp
    using True assms tg by (auto simp: eq rreq_seen_mark_seen)
qed

lemma forwarded_once_fold_forward:
  assumes "\<forall>nb \<in> set nbs. nb < length (nodes s)"
  shows "forwarded_once s (fold (forward_rreq cur pth) nbs s)"
  using assms
proof (induction nbs arbitrary: s)
  case Nil
  then show ?case by (simp add: forwarded_once_refl[where new = "[]"])
next
  case (Cons nb nbs)
  let ?s1 = "forward_rreq cur pth nb s"
  from Cons.prems have a: "forwarded_once s ?s1" by (simp add: forwarded_once_forward_rreq)
  then have "map neighbors (nodes ?s1) = map neighbors (nodes s)"
    by (simp add: forwarded_once_def Let_def)
  then have "length (nodes ?s1) = length (nodes s)" by (metis length_map)
  with Cons.prems have "\<forall>nb \<in> set nbs. nb < length (nodes ?s1)" by simp
  from Cons.IH[OF this] have "forwarded_once ?s1 (fold (forward_rreq cur pth) nbs ?s1)" .
  with a show ?case by (simp add: forwarded_once_trans)
qed

lemma forwarded_once_forward_to_neighbors:
  assumes "forward_to_neighbors s cur pth = Inr s'" "topology_ok (nodes s)"
  shows "forwarded_once s s'"
proof -
  from assms(1) have cur: "cur < length (nodes s)"
    and s': "s' = fold (forward_rreq cur pth) (neighbors (nodes s ! cur)) s"
    by (auto simp: forward_to_neighbors_def split: if_splits)
  from topology_ok_neighbor[OF assms(2) cur]
  have "\<forall>nb \<in> set (neighbors (nodes s ! cur)). nb < length (nodes s)" by blast
  then show ?thesis unfolding s' by (rule forwarded_once_fold_forward)
qed

lemma forwarded_once_rreq_at_destination:
  assumes "rreq_at_destination s pth = Inr (s', stop)"
  shows "forwarded_once s s'"
proof -
  from rreq_at_destination_shape[OF assms] obtain q c b f where
    s': "s' = s\<lparr>all_discovered_paths_to_dest := all_discovered_paths_to_dest s @ [pth],
            best_path_hop_count := b, final_path := f, packet_queue := q, packet_counter := c,
            route_established := (stop \<or> route_established s)\<rparr>"
    and q: "q = packet_queue s @ [new_packet (packet_counter s) RREP (rev pth) default_base_speed None None]
            \<or> q = packet_queue s @ []"
    by auto
  from q show ?thesis
  proof
    assume "q = packet_queue s @ [new_packet (packet_counter s) RREP (rev pth) default_base_speed None None]"
    then show ?thesis
      by (intro forwarded_once_refl[where new = "[new_packet (packet_counter s) RREP (rev pth) default_base_speed None None]"])
        (simp_all add: s' new_packet_def)
  next
    assume "q = packet_queue s @ []"
    then show ?thesis
      by (intro forwarded_once_refl[where new = "[]"]) (simp_all add: s')
  qed
qed

lemma forwarded_once_process:
  assumes "process_packet_completion s p = Inr s'" "packet_type p = RREQ" "topology_ok (nodes s)"
  shows "forwarded_once s s'"
  using assms(1)
proof (cases rule: process_packet_completion_cases)
  case forward
  with assms(3) show ?thesis by (simp add: forwarded_once_forward_to_neighbors)
next
  case dest_stop
  then show ?thesis by (simp add: forwarded_once_rreq_at_destination)
next
  case (dest_forward s2)
  from forwarded_once_rreq_at_destination[OF dest_forward(4)] have a: "forwarded_once s s2" .
  then have "map neighbors (nodes s2) = map neighbors (nodes s)"
    by (simp add: forwarded_once_def Let_def)
  with assms(3) have "topology_ok (nodes s2)" by (simp add: topology_ok_def)
  from forwarded_once_forward_to_neighbors[OF dest_forward(5) this] a show ?thesis
    by (rule forwarded_once_trans[rotated])
qed (use assms(2) in simp_all)

lemma forwarded_once_complete_packets:
  "complete_packets ps s = Inr s' \<Longrightarrow> \<forall>p \<in> set ps. packet_type p = RREQ \<Longrightarrow>
     topology_ok (nodes s) \<Longrightarrow> forwarded_once s s'"
proof (induction ps arbitrary: s)
  case Nil
  then show ?case by (simp add: forwarded_once_refl[where new = "[]"])
next
  case (Cons p ps)
  let ?s0 = "s\<lparr>active_packets := remove1 p (active_packets s)\<rparr>"
  from Cons.prems(1) obtain s1 where
    s1: "process_packet_completion ?s0 p = Inr s1"
    and rest: "complete_packets ps s1 = Inr s'"
    by (rule complete_packets_Cons)
  have a0: "forwarded_once s ?s0"
    by (intro forwarded_once_refl[where new = "[]"]) simp_all
  from Cons.prems(2,3) have "forwarded_once ?s0 s1"
    by (intro forwarded_once_process[OF s1]) simp_all
  with a0 have a1: "forwarded_once s s1" by (rule forwarded_once_trans)
  then have "map neighbors (nodes s1) = map neighbors (nodes s)"
    by (simp add: forwarded_once_def Let_def)
  with Cons.prems(3) have "topology_ok (nodes s1)" by (simp add: topology_ok_def)
  from Cons.IH[OF rest _ this] Cons.prems(2) have "forwarded_once s1 s'" by simp
  with a1 show ?case by (rule forwarded_once_trans)
qed

lemma forwarded_from_cong:
  assumes "map neighbors ns' = map neighbors ns"
  shows "forwarded_from ps ns' q = forwarded_from ps ns q"
proof -
  from assms have len: "length ns' = length ns" by (metis length_map)
  have "neighbors (ns' ! i) = neighbors (ns ! i)" if "i < length ns" for i
    using assms that len by (metis nth_map)
  with len show ?thesis unfolding forwarded_from_def by auto
qed

lemma forwarded_from_mono:
  "forwarded_from ps ns q \<Longrightarrow> set ps \<subseteq> set ps' \<Longrightarrow> forwarded_from ps' ns q"
  unfolding forwarded_from_def by blast

lemma fold_forward_spawned:
  "\<exists>new. packet_queue (fold (forward_rreq cur pth) nbs s) = packet_queue s @ new
     \<and> (\<forall>q \<in> set new. packet_type q = RREQ \<and> path q = pth @ [target q] \<and> target q \<notin> set pth
            \<and> target q \<in> set nbs \<and> from_node q = Some cur)"
proof (induction nbs arbitrary: s)
  case Nil
  then show ?case by simp
next
  case (Cons nb nbs)
  let ?s1 = "forward_rreq cur pth nb s"
  let ?P = "\<lambda>nbs q. packet_type q = RREQ \<and> path q = pth @ [target q] \<and> target q \<notin> set pth
            \<and> target q \<in> set nbs \<and> from_node q = Some cur"
  have "\<exists>n0. packet_queue ?s1 = packet_queue s @ n0 \<and> (\<forall>q \<in> set n0. ?P [nb] q)"
  proof (cases "?s1 = s")
    case True
    then show ?thesis by simp
  next
    case False
    then have nb: "nb \<notin> set pth"
      and "packet_queue ?s1 = packet_queue s @
             [new_packet (packet_counter s) RREQ (pth @ [nb]) default_base_speed (Some cur) (Some nb)]"
      by (auto simp: forward_rreq_def Let_def split: if_splits)
    moreover have "?P [nb] (new_packet (packet_counter s) RREQ (pth @ [nb]) default_base_speed (Some cur) (Some nb))"
      using nb by (simp add: new_packet_def target_def)
    ultimately show ?thesis by simp
  qed
  then obtain n0 where n0: "packet_queue ?s1 = packet_queue s @ n0" "\<forall>q \<in> set n0. ?P [nb] q"
    by blast
  from Cons.IH[of ?s1] obtain n1 where
    n1: "packet_queue (fold (forward_rreq cur pth) nbs ?s1) = packet_queue ?s1 @ n1"
      "\<forall>q \<in> set n1. ?P nbs q"
    by blast
  from n0 n1 have "packet_queue (fold (forward_rreq cur pth) (nb # nbs) s) = packet_queue s @ (n0 @ n1)"
    by simp
  moreover from n0(2) n1(2) have "\<forall>q \<in> set (n0 @ n1). ?P (nb # nbs) q"
    by auto
  ultimately show ?case by blast
qed

lemma forward_to_neighbors_spawned:
  assumes "forward_to_neighbors s cur pth = Inr s'"
  shows "\<exists>new. packet_queue s' = packet_queue s @ new
     \<and> (\<forall>q \<in> set new. packet_type q = RREQ \<and> path q = pth @ [target q] \<and> target q \<notin> set pth
            \<and> cur < length (nodes s) \<and> target q \<in> set (neighbors (nodes s ! cur))
            \<and> from_node q = Some cur)"
proof -
  from assms have c: "cur < length (nodes s)"
    and s': "s' = fold (forward_rreq cur pth) (neighbors (nodes s ! cur)) s"
    by (auto simp: forward_to_neighbors_def split: if_splits)
  from fold_forward_spawned[of cur pth "neighbors (nodes s ! cur)" s] c s'
  show ?thesis by auto
qed

lemma process_packet_completion_spawned:
  assumes "process_packet_completion s p = Inr s'" "packet_type p = RREQ"
  shows "\<exists>new. packet_queue s' = packet_queue s @ new
     \<and> (\<forall>q \<in> set new. packet_type q = RREQ \<longrightarrow> forwarded_from [p] (nodes s) q)"
  using assms(1)
proof (cases rule: process_packet_completion_cases)
  case forward
  from forward_to_neighbors_spawned[OF forward(4)] forward(1) show ?thesis
    unfolding forwarded_from_def by auto
next
  case dest_stop
  from rreq_at_destination_shape[OF dest_stop(4)] show ?thesis
    by (auto simp: new_packet_def)
next
  case (dest_forward s2)
  from rreq_at_destination_shape[OF dest_forward(4)]
  obtain r where r: "packet_queue s2 = packet_queue s @ r" "\<forall>q \<in> set r. packet_type q \<noteq> RREQ"
    and n: "nodes s2 = nodes s"
    by (auto simp: new_packet_def)
  from forward_to_neighbors_spawned[OF dest_forward(5)] obtain new where
    new: "packet_queue s' = packet_queue s2 @ new"
      "\<forall>q \<in> set new. packet_type q = RREQ \<and> path q = path p @ [target q] \<and> target q \<notin> set (path p)
            \<and> last (path p) < length (nodes s2) \<and> target q \<in> set (neighbors (nodes s2 ! last (path p)))
            \<and> from_node q = Some (last (path p))"
    by blast
  from r new(1) have "packet_queue s' = packet_queue s @ (r @ new)" by simp
  moreover from r(2) new(2) n dest_forward(1)
  have "\<forall>q \<in> set (r @ new). packet_type q = RREQ \<longrightarrow> forwarded_from [p] (nodes s) q"
    unfolding forwarded_from_def by auto
  ultimately show ?thesis by blast
qed (use assms(2) in simp_all)

lemma complete_packets_spawned:
  "complete_packets ps s = Inr s' \<Longrightarrow> \<forall>p \<in> set ps. packet_type p = RREQ \<Longrightarrow>
     \<exists>new. packet_queue s' = packet_queue s @ new
       \<and> (\<forall>q \<in> set new. packet_type q = RREQ \<longrightarrow> forwarded_from ps (nodes s) q)"
proof (induction ps arbitrary: s)
  case Nil
  then show ?case by simp
next
  case (Cons p ps)
  let ?s0 = "s\<lparr>active_packets := remove1 p (active_packets s)\<rparr>"
  from Cons.prems(1) obtain s1 where
    s1: "process_packet_completion ?s0 p = Inr s1"
    and rest: "complete_packets ps s1 = Inr s'"
    by (rule complete_packets_Cons)
  from Cons.prems(2) have tp: "packet_type p = RREQ" by simp
  from process_packet_completion_spawned[OF s1 tp] obtain a where
    a: "packet_queue s1 = packet_queue s @ a"
      "\<forall>q \<in> set a. packet_type q = RREQ \<longrightarrow> forwarded_from [p] (nodes s) q"
    by auto
  from process_packet_completion_frame[OF s1]
  have nb: "map neighbors (nodes s1) = map neighbors (nodes s)" by simp
  from Cons.IH[OF rest] Cons.prems(2) obtain b where
    b: "packet_queue s' = packet_queue s1 @ b"
      "\<forall>q \<in> set b. packet_type q = RREQ \<longrightarrow> forwarded_from ps (nodes s1) q"
    by auto
  from a(1) b(1) have "packet_queue s' = packet_queue s @ (a @ b)" by simp
  moreover have "\<forall>q \<in> set (a @ b). packet_type q = RREQ \<longrightarrow> forwarded_from (p # ps) (nodes s) q"
  proof (intro ballI impI)
    fix q assume q: "q \<in> set (a @ b)" "packet_type q = RREQ"
    then consider "q \<in> set a" | "q \<in> set b" by auto
    then show "forwarded_from (p # ps) (nodes s) q"
    proof cases
      case 1
      with a(2) q(2) have "forwarded_from [p] (nodes s) q" by simp
      then show ?thesis by (rule forwarded_from_mono) simp
    next
      case 2
      with b(2) q(2) have "forwarded_from ps (nodes s1) q" by simp
      with forwarded_from_cong[OF nb] have "forwarded_from ps (nodes s) q" by simp
      then show ?thesis by (rule forwarded_from_mono) auto
    qed
  qed
  ultimately show ?case by blast
qed

text \<open>The forwarding loop of \<^verbatim>\<open>process_packet_completion\<close> marks the node it forwards to.
  Take a state with a well-formed topology and any sequence of completed \<^verbatim>\<open>RREQ\<close> packets
  processed one after the other, as a tick does. The flood \<open>(source, rreq_broadcast_id)\<close>
  stays the same, the queue only grows at its end, and of the \<^verbatim>\<open>RREQ\<close> packets forwarded
  along the way
  \<^item> no two are directed at the same node,
  \<^item> each is directed at a node whose record did not contain the flood before, and does
    contain it afterwards;
  \<^item> each comes from one of the completed packets: its path is that packet's path followed
    by its target, a neighbour of the node where that packet completed which is not on that
    packet's path;
  \<^item> no record loses an entry, so a node whose record contains the flood has no packet
    forwarded to it.\<close>

theorem forwarding_marks_its_targets:
  assumes "topology_ok (nodes s)" "\<forall>p \<in> set ps. packet_type p = RREQ"
    and "complete_packets ps s = Inr s'"
  shows "let key = (source s, rreq_broadcast_id s);
             fw = filter (\<lambda>q. packet_type q = RREQ) (spawned s s')
         in packet_queue s' = packet_queue s @ spawned s s'
            \<and> source s' = source s \<and> rreq_broadcast_id s' = rreq_broadcast_id s
            \<and> distinct (map target fw)
            \<and> (\<forall>q \<in> set fw. key \<notin> rreq_seen (nodes s ! target q)
                             \<and> key \<in> rreq_seen (nodes s' ! target q))
            \<and> (\<forall>q \<in> set fw. forwarded_from ps (nodes s) q)
            \<and> (\<forall>n < length (nodes s). rreq_seen (nodes s ! n) \<subseteq> rreq_seen (nodes s' ! n))
            \<and> (\<forall>n < length (nodes s). key \<in> rreq_seen (nodes s ! n) \<longrightarrow> n \<notin> target ` set fw)"
proof -
  let ?key = "(source s, rreq_broadcast_id s)"
  let ?fw = "filter (\<lambda>q. packet_type q = RREQ) (spawned s s')"
  from forwarded_once_complete_packets[OF assms(3,2,1)] have fo: "forwarded_once s s'" .
  then have tk: "take (length (packet_queue s)) (packet_queue s') = packet_queue s"
    and k: "source s' = source s" "rreq_broadcast_id s' = rreq_broadcast_id s"
    and d: "distinct (map target ?fw)"
    and t: "\<forall>q \<in> set ?fw. target q < length (nodes s) \<and> ?key \<notin> rreq_seen (nodes s ! target q)"
    and r: "\<forall>n < length (nodes s). rreq_seen (nodes s' ! n)
                 = rreq_seen (nodes s ! n) \<union> (if n \<in> target ` set ?fw then {?key} else {})"
    by (simp_all add: forwarded_once_def Let_def)
  from tk have q: "packet_queue s' = packet_queue s @ spawned s s'" by (rule queue_spawned)
  have a: "\<forall>q \<in> set ?fw. ?key \<notin> rreq_seen (nodes s ! target q) \<and> ?key \<in> rreq_seen (nodes s' ! target q)"
  proof
    fix q assume q: "q \<in> set ?fw"
    with t have "target q < length (nodes s)" "?key \<notin> rreq_seen (nodes s ! target q)" by auto
    moreover from this(1) r q have "?key \<in> rreq_seen (nodes s' ! target q)" by auto
    ultimately show "?key \<notin> rreq_seen (nodes s ! target q) \<and> ?key \<in> rreq_seen (nodes s' ! target q)"
      by simp
  qed
  have b: "\<forall>n < length (nodes s). rreq_seen (nodes s ! n) \<subseteq> rreq_seen (nodes s' ! n)"
    using r by auto
  have c: "\<forall>n < length (nodes s). ?key \<in> rreq_seen (nodes s ! n) \<longrightarrow> n \<notin> target ` set ?fw"
    using t by auto
  from complete_packets_spawned[OF assms(3,2)] obtain new where
    "packet_queue s' = packet_queue s @ new"
    "\<forall>q \<in> set new. packet_type q = RREQ \<longrightarrow> forwarded_from ps (nodes s) q"
    by blast
  with q have f: "\<forall>q \<in> set ?fw. forwarded_from ps (nodes s) q" by simp
  from q k d a f b c show ?thesis by (simp add: Let_def)
qed

theorem forwarding_marks_its_targets_witness:
  "case exec_all [ClickNode 0, ClickNode 3, RunSim, Tick nobody_in_range (double_of_nat 2)] (init_simulator line_adj) of
     Inl e \<Rightarrow> False
   | Inr s \<Rightarrow> topology_ok (nodes s) \<and> map packet_type (active_packets s) = [RREQ]
       \<and> map path (active_packets s) = [[0, 1]]
       \<and> (case complete_packets (active_packets s) s of
             Inl e \<Rightarrow> False
           | Inr s' \<Rightarrow> map path (spawned s s') = [[0, 1, 2]]
               \<and> map packet_type (spawned s s') = [RREQ]
               \<and> (Some 0, 0) \<notin> rreq_seen (nodes s ! 2)
               \<and> (Some 0, 0) \<in> rreq_seen (nodes s' ! 2))"
proof -
  let ?run = "exec_all [ClickNode 0, ClickNode 3, RunSim, Tick nobody_in_range (double_of_nat 2)] (init_simulator line_adj)"
  have val: "case ?run of
     Inl e \<Rightarrow> False
   | Inr s \<Rightarrow> topology_ok (nodes s) \<and> map packet_type (active_packets s) = [RREQ]
       \<and> map path (active_packets s) = [[0, 1]]
       \<and> source s = Some 0 \<and> rreq_broadcast_id s = 0
       \<and> (case complete_packets (active_packets s) s of
             Inl e \<Rightarrow> False
           | Inr s' \<Rightarrow> map path (spawned s s') = [[0, 1, 2]]
               \<and> map packet_type (spawned s s') = [RREQ])"
    by code_simp
  then obtain s s' where s: "?run = Inr s" and s': "complete_packets (active_packets s) s = Inr s'"
    by (auto split: sum.splits)
  from val s s' have h: "topology_ok (nodes s)" "map packet_type (active_packets s) = [RREQ]"
    "map path (active_packets s) = [[0, 1]]" "source s = Some 0" "rreq_broadcast_id s = 0"
    "map path (spawned s s') = [[0, 1, 2]]" "map packet_type (spawned s s') = [RREQ]"
    by simp_all
  from h(2) have rq: "\<forall>p \<in> set (active_packets s). packet_type p = RREQ"
    by (cases "active_packets s") auto
  from h(6,7) obtain q where q: "spawned s s' = [q]" "path q = [0, 1, 2]" "packet_type q = RREQ"
    by (cases "spawned s s'") auto
  then have "target q = 2" by (simp add: target_def)
  with forwarding_marks_its_targets[OF h(1) rq s'] q h(4,5)
  have "(Some 0, 0) \<notin> rreq_seen (nodes s ! 2) \<and> (Some 0, 0) \<in> rreq_seen (nodes s' ! 2)"
    by (simp add: Let_def)
  with s s' h show ?thesis by simp
qed

text \<open>C3 on the code. The flood is \<open>(Some 0, 0)\<close> throughout both runs. The forwarding loop
  of \<^verbatim>\<open>process_packet_completion\<close> forwards to a neighbour only if the neighbour's record
  does not contain the flood, and then adds the flood to that neighbour's record. The
  seeding loop of \<^verbatim>\<open>start_rreq_flooding\<close> adds the flood to the record of
  the source in every round and leaves the record of the neighbour it sends to as it is.
  \<^item> On the line topology, right after the start, the seed packet \<open>[0, 1]\<close> is queued, the
    record of the source 0 contains the flood and the record of node 1 does not.
  \<^item> After the seed packet \<open>[0, 1]\<close> has completed at node 1, node 1 has forwarded the
    flood (the packet \<open>[0, 1, 2]\<close> from node 1 is active), and the record of node 1 does
    not contain the flood.
  \<^item> On the mobile topology, node 1 forwards the flood when the seed packet \<open>[0, 1]\<close>
    arrives (the packet \<open>[0, 1, 2]\<close>). Node 2, where the other seed packet arrives, finds
    the record of node 1 without the flood and forwards to it (the packet \<open>[0, 2, 1]\<close>);
    only now does the record of node 1 contain the flood. When that packet arrives at
    node 1, node 3 having come into range, node 1 forwards the flood a second time: the
    packet \<open>[0, 2, 1, 3]\<close> from node 1 is spawned.\<close>

theorem node_forwards_flood_again:
  "(case exec_all [ClickNode 0, ClickNode 3, RunSim] (init_simulator line_adj) of
      Inl e \<Rightarrow> False
    | Inr s \<Rightarrow> source s = Some 0 \<and> rreq_broadcast_id s = 0
        \<and> map path (packet_queue s) = [[0, 1]]
        \<and> (Some 0, 0) \<in> rreq_seen (nodes s ! 0)
        \<and> (Some 0, 0) \<notin> rreq_seen (nodes s ! 1))
   \<and> (case exec_all line_commands (init_simulator line_adj) of
      Inl e \<Rightarrow> False
    | Inr s \<Rightarrow> source s = Some 0 \<and> rreq_broadcast_id s = 0
        \<and> map path (active_packets s) = [[0, 1, 2]]
        \<and> map from_node (active_packets s) = [Some 1]
        \<and> (Some 0, 0) \<notin> rreq_seen (nodes s ! 1))
   \<and> (case exec_all mobile_commands (init_simulator triangle_adj) of
      Inl e \<Rightarrow> False
    | Inr s \<Rightarrow> source s = Some 0 \<and> rreq_broadcast_id s = 0
        \<and> discovered_paths s = [[0, 1], [0, 2], [0, 1, 2], [0, 2, 1]]
        \<and> map path (active_packets s) = [[0, 1, 2], [0, 2, 1]]
        \<and> map from_node (active_packets s) = [Some 1, Some 2]
        \<and> (Some 0, 0) \<in> rreq_seen (nodes s ! 1)
        \<and> (case exec (Tick triangle_plus_range (double_of_nat 2)) s of
              Inl e \<Rightarrow> False
            | Inr s' \<Rightarrow> source s' = Some 0 \<and> rreq_broadcast_id s' = 0
                \<and> map path (active_packets s') = [[0, 2, 1, 3]]
                \<and> map from_node (active_packets s') = [Some 1]
                \<and> map packet_type (active_packets s') = [RREQ]))"
  by code_simp

text \<open>C1 on the code. In the session on the chain topology the best path is
  \<open>[0, 3, 5, 7]\<close> with source 0 and destination 7, and the flood in progress has the
  discovery id 0. Whatever the random draw, \<^verbatim>\<open>simulate_route_error\<close> queues one
  \<^verbatim>\<open>RERR\<close> packet whose path is \<open>[0, 3]\<close> (break index 1) or \<open>[3, 5]\<close> (break index 2).
  The last node of that path is 3 or 5, not the source, so completing the packet changes
  nothing: the state after \<^verbatim>\<open>process_packet_completion\<close> is the state before it, with
  the same discovery id and no seed packet queued.\<close>

theorem route_error_starts_no_flood:
  "case exec_all chain_commands (init_simulator chain_adj) of
     Inl e \<Rightarrow> False
   | Inr s \<Rightarrow> final_path s = [0, 3, 5, 7] \<and> source s = Some 0 \<and> destination s = Some 7
       \<and> simulation_running s \<and> rreq_broadcast_id s = 0 \<and> neighbors (nodes s ! 0) = [3]
       \<and> (\<forall>r. packet_queue (simulate_route_error r s)
                 = packet_queue s @ [new_packet (packet_counter s) RERR
                      (if even r then [0, 3] else [3, 5]) default_base_speed
                      (Some (if even r then 0 else 3)) (Some (if even r then 3 else 5))]
             \<and> process_packet_completion (simulate_route_error r s)
                   (last (packet_queue (simulate_route_error r s)))
                 = Inr (simulate_route_error r s)
             \<and> rreq_broadcast_id (simulate_route_error r s) = 0)"
proof -
  let ?run = "exec_all chain_commands (init_simulator chain_adj)"
  have val: "case ?run of
     Inl e \<Rightarrow> False
   | Inr s \<Rightarrow> final_path s = [0, 3, 5, 7] \<and> source s = Some 0 \<and> destination s = Some 7
       \<and> simulation_running s \<and> rreq_broadcast_id s = 0 \<and> neighbors (nodes s ! 0) = [3]"
    by code_simp
  then obtain s where s: "?run = Inr s" by (auto split: sum.splits)
  with val have h: "final_path s = [0, 3, 5, 7]" "source s = Some 0" "destination s = Some 7"
    "simulation_running s" "rreq_broadcast_id s = 0" "neighbors (nodes s ! 0) = [3]"
    by simp_all
  have len: "length (final_path s) - 2 = 2" using h(1) by simp
  have two: "(2::nat) - 1 + 1 = 2" by simp
  have rd: "randint 1 (length (final_path s) - 2) r = 1 + r mod 2" for r
    unfolding randint_def len by (simp only: two)
  have bi: "randint 1 (length (final_path s) - 2) r = (if even r then 1 else 2)" for r
  proof (cases "even r")
    case True
    then have "r mod 2 = 0" by (simp add: even_iff_mod_2_eq_zero)
    with rd[of r] True show ?thesis by simp
  next
    case False
    then have "r mod 2 = 1" by (simp add: odd_iff_mod_2_eq_one)
    with rd[of r] False show ?thesis by simp
  qed
  have guard: "\<not> (final_path s = [] \<or> length (final_path s) < 3)" using h(1) by simp
  have sre: "simulate_route_error r s
      = s\<lparr>packet_queue := packet_queue s @ [new_packet (packet_counter s) RERR
                      (if even r then [0, 3] else [3, 5]) default_base_speed
                      (Some (if even r then 0 else 3)) (Some (if even r then 3 else 5))],
           packet_counter := packet_counter s + 1\<rparr>" for r
    unfolding simulate_route_error_def Let_def bi if_not_P[OF guard]
    using h(1) by (cases "even r") simp_all
  have draw: "packet_queue (simulate_route_error r s)
                 = packet_queue s @ [new_packet (packet_counter s) RERR
                      (if even r then [0, 3] else [3, 5]) default_base_speed
                      (Some (if even r then 0 else 3)) (Some (if even r then 3 else 5))]
             \<and> process_packet_completion (simulate_route_error r s)
                   (last (packet_queue (simulate_route_error r s)))
                 = Inr (simulate_route_error r s)
             \<and> rreq_broadcast_id (simulate_route_error r s) = 0" for r
    unfolding sre using h
    by (cases "even r") (simp_all add: process_packet_completion_def new_packet_def Let_def)
  show ?thesis unfolding s sum.case using h draw by blast
qed

text \<open>C2 on the code. On the fork topology the two seed packets \<open>[0, 1]\<close> and \<open>[0, 2]\<close> are
  active. Completing the first at the destination 1 records the one-hop path and sets
  \<^verbatim>\<open>route_established\<close>. Completing the second at node 2, in the state with the flag set,
  appends a new \<^verbatim>\<open>RREQ\<close> packet with the path \<open>[0, 2, 3]\<close> to the queue. The frame in which
  both packets complete ends with the flag set and that new packet active.\<close>

theorem rreq_spawned_after_route_established:
  "case exec_all fork_commands (init_simulator fork_adj) of
     Inl e \<Rightarrow> False
   | Inr s \<Rightarrow> map path (active_packets s) = [[0, 1], [0, 2]] \<and> \<not> route_established s
       \<and> (case process_packet_completion s (active_packets s ! 0) of
             Inl e \<Rightarrow> False
           | Inr s1 \<Rightarrow> route_established s1 \<and> best_path_hop_count s1 = 1
               \<and> (case process_packet_completion s1 (active_packets s ! 1) of
                     Inl e \<Rightarrow> False
                   | Inr s2 \<Rightarrow> route_established s2
                       \<and> map path (spawned s1 s2) = [[0, 2, 3]]
                       \<and> map packet_type (spawned s1 s2) = [RREQ]))
       \<and> (case exec (Tick nobody_in_range (double_of_nat 2)) s of
             Inl e \<Rightarrow> False
           | Inr s' \<Rightarrow> route_established s'
               \<and> map path (active_packets s') = [[1, 0], [0, 2, 3]]
               \<and> map packet_type (active_packets s') = [RREP, RREQ])"
  by code_simp

end
